theory Spec2Isabelle
  imports Complex_Main "HOL-Library.Multiset"
begin

section \<open>Derived view state of the job list (JobItemsContextProvider)\<close>

text \<open>
  A job item as the list view uses it. JavaScript numbers that come out of a JSON
  response are finite; the relevance score is kept as a real number and the age in
  days as an integer, so that the sign of a difference is the sign the comparator
  callback returns.
\<close>

record JobItem =
  id :: int
  title :: string
  companyName :: string
  relevanceScore :: real
  daysAgo :: int

text \<open>
  The callback handed to \<open>sort\<close>: the value of \<open>sortBy\<close> (here \<open>sort_by\<close>) is
  compared with the two string literals, every other value falls through to
  \<open>return 0\<close>.
\<close>

definition comparator :: "string \<Rightarrow> JobItem \<Rightarrow> JobItem \<Rightarrow> real" where
  "comparator sort_by a b =
     (if sort_by = ''relevant'' then relevanceScore b - relevanceScore a
      else if sort_by = ''recent'' then real_of_int (daysAgo a - daysAgo b)
      else 0)"

text \<open>
  \<open>Array.prototype.sort\<close> with a comparison callback. The language fixes the result
  for a consistent callback: the elements in ascending callback order, elements that
  compare equal in their original order. Insertion from the right computes it: an
  element goes in front of the first element it does not exceed.
\<close>

fun insert_sorted :: "('a \<Rightarrow> 'a \<Rightarrow> real) \<Rightarrow> 'a \<Rightarrow> 'a list \<Rightarrow> 'a list" where
  "insert_sorted cmp x [] = [x]"
| "insert_sorted cmp x (y # ys) =
     (if cmp x y \<le> 0 then x # y # ys else y # insert_sorted cmp x ys)"

fun array_sort :: "('a \<Rightarrow> 'a \<Rightarrow> real) \<Rightarrow> 'a list \<Rightarrow> 'a list" where
  "array_sort cmp [] = []"
| "array_sort cmp (x # xs) = insert_sorted cmp x (array_sort cmp xs)"

text \<open>
  \<open>[...(jobItems || [])].sort(...)\<close>: an undefined query result counts as the empty
  list, and the copy leaves the query result itself untouched.
\<close>

definition or_empty :: "'a list option \<Rightarrow> 'a list" where
  "or_empty jobItems = (case jobItems of None \<Rightarrow> [] | Some xs \<Rightarrow> xs)"

definition jobItemsSorted :: "string \<Rightarrow> JobItem list option \<Rightarrow> JobItem list" where
  "jobItemsSorted sort_by jobItems = array_sort (comparator sort_by) (or_empty jobItems)"

text \<open>
  \<open>Array.prototype.slice(start, end)\<close> on integer arguments: a negative index counts
  from the end of the array, both indices are clamped to the array, and an end that
  does not lie behind the start gives the empty array.
\<close>

definition array_slice :: "'a list \<Rightarrow> int \<Rightarrow> int \<Rightarrow> 'a list" where
  "array_slice xs start fin =
     (let len = int (length xs);
          k = (if start < 0 then max (len + start) 0 else min start len);
          final = (if fin < 0 then max (len + fin) 0 else min fin len)
      in take (nat (final - k)) (drop (nat k) xs))"

text \<open>
  The page of the sorted list that is shown. The constant \<open>RESULTS_PER_PAGE\<close> lives in
  a module of its own and is a parameter here; \<open>page\<close> is the value of \<open>currentPage\<close>.
\<close>

definition jobItemsSortedAndSliced :: "int \<Rightarrow> int \<Rightarrow> JobItem list \<Rightarrow> JobItem list" where
  "jobItemsSortedAndSliced RESULTS_PER_PAGE page sorted_items =
     array_slice sorted_items
       (page * RESULTS_PER_PAGE - RESULTS_PER_PAGE)
       (page * RESULTS_PER_PAGE)"

text \<open>\<open>jobItems?.length || 0\<close> and the quotient exposed as \<open>totalNumberOfPages\<close>.\<close>

definition totalNumberOfResults :: "JobItem list option \<Rightarrow> int" where
  "totalNumberOfResults jobItems = (case jobItems of None \<Rightarrow> 0 | Some xs \<Rightarrow> int (length xs))"

definition totalNumberOfPages :: "int \<Rightarrow> JobItem list option \<Rightarrow> real" where
  "totalNumberOfPages RESULTS_PER_PAGE jobItems =
     real_of_int (totalNumberOfResults jobItems) / real_of_int RESULTS_PER_PAGE"

text \<open>The number of pages a list of \<open>n\<close> entries needs: the quotient rounded up.\<close>

definition page_count :: "int \<Rightarrow> nat \<Rightarrow> nat" where
  "page_count RESULTS_PER_PAGE n = nat ((int n + RESULTS_PER_PAGE - 1) div RESULTS_PER_PAGE)"

definition all_pages :: "int \<Rightarrow> JobItem list \<Rightarrow> JobItem list list" where
  "all_pages RESULTS_PER_PAGE sorted_items =
     map (\<lambda>p. jobItemsSortedAndSliced RESULTS_PER_PAGE (int p) sorted_items)
       [1 ..< Suc (page_count RESULTS_PER_PAGE (length sorted_items))]"

text \<open>A job item with the fields that matter for the order, for concrete runs.\<close>

definition job :: "int \<Rightarrow> real \<Rightarrow> int \<Rightarrow> JobItem" where
  "job i score days =
     \<lparr>id = i, title = [], companyName = [], relevanceScore = score, daysAgo = days\<rparr>"

section \<open>The state of the list view and its event handlers\<close>

text \<open>
  The two \<open>useState\<close> cells of the provider and the debounced search text it reads
  from the search text context. The cells start at page 1 and \<open>relevant\<close>.
\<close>

record view_state =
  currentPage :: int
  sortBy :: string
  debouncedSearchText :: string

definition initial_state :: "string \<Rightarrow> view_state" where
  "initial_state text = \<lparr>currentPage = 1, sortBy = ''relevant'', debouncedSearchText = text\<rparr>"

definition handleChangePage :: "string \<Rightarrow> view_state \<Rightarrow> view_state" where
  "handleChangePage direction s =
     (if direction = ''next'' then s\<lparr>currentPage := currentPage s + 1\<rparr>
      else if direction = ''previous'' then s\<lparr>currentPage := currentPage s - 1\<rparr>
      else s)"

definition handleChangeSortBy :: "string \<Rightarrow> view_state \<Rightarrow> view_state" where
  "handleChangeSortBy newSortBy s = s\<lparr>currentPage := 1, sortBy := newSortBy\<rparr>"

text \<open>
  A new debounced search text reaches the provider as a new context value: the
  provider renders again, its state cells keep what they hold, and no effect or
  handler of the provider runs on that change.
\<close>

definition searchTextChanged :: "string \<Rightarrow> view_state \<Rightarrow> view_state" where
  "searchTextChanged text s = s\<lparr>debouncedSearchText := text\<rparr>"

datatype event = ChangePage string | ChangeSortBy string | ChangeSearchText string

fun step :: "view_state \<Rightarrow> event \<Rightarrow> view_state" where
  "step s (ChangePage direction) = handleChangePage direction s"
| "step s (ChangeSortBy newSortBy) = handleChangeSortBy newSortBy s"
| "step s (ChangeSearchText text) = searchTextChanged text s"

definition run :: "view_state \<Rightarrow> event list \<Rightarrow> view_state" where
  "run s events = foldl step s events"

text \<open>The page the list shows in a state, for the job list the query returned.\<close>

definition shown :: "int \<Rightarrow> view_state \<Rightarrow> JobItem list option \<Rightarrow> JobItem list" where
  "shown RESULTS_PER_PAGE s jobItems =
     jobItemsSortedAndSliced RESULTS_PER_PAGE (currentPage s) (jobItemsSorted (sortBy s) jobItems)"

section \<open>The debounce hook (useDebounce)\<close>

text \<open>
  One instance of the hook on a clock that counts milliseconds. \<open>debouncedValue\<close> is
  the state cell the hook returns; \<open>dep_value\<close> is the value the effect last ran with
  (the delay does not change between renders); \<open>timer\<close> is the pending timeout, with
  the time it is due and the value its callback will store; \<open>propagated\<close> records each
  run of a timeout callback, with the time it ran at.
\<close>

record 'a debouncer =
  debouncedValue :: 'a
  dep_value :: 'a
  timer :: "(nat \<times> 'a) option"
  propagated :: "(nat \<times> 'a) list"

text \<open>The first render: the cell starts at the value, and the effect sets a timeout.\<close>

definition mount :: "nat \<Rightarrow> nat \<Rightarrow> 'a \<Rightarrow> 'a debouncer" where
  "mount delay now v =
     \<lparr>debouncedValue = v, dep_value = v, timer = Some (now + delay, v), propagated = []\<rparr>"

text \<open>The clock reaches \<open>now\<close>: a timeout that is due runs its callback and is gone.\<close>

definition advance :: "nat \<Rightarrow> 'a debouncer \<Rightarrow> 'a debouncer" where
  "advance now s =
     (case timer s of
        None \<Rightarrow> s
      | Some (due, v) \<Rightarrow>
          if due \<le> now
          then s\<lparr>debouncedValue := v, timer := None, propagated := propagated s @ [(due, v)]\<rparr>
          else s)"

text \<open>
  A later render with value \<open>v\<close>: when the dependency changed, the cleanup of the
  previous effect clears its timeout and the effect sets a new one; otherwise the
  effect does not run.
\<close>

definition render :: "nat \<Rightarrow> nat \<Rightarrow> 'a \<Rightarrow> 'a debouncer \<Rightarrow> 'a debouncer" where
  "render delay now v s =
     (if v = dep_value s then s
      else s\<lparr>dep_value := v, timer := Some (now + delay, v)\<rparr>)"

text \<open>Inputs in the order of their times; a timeout due by the time of an input runs first.\<close>

fun feed :: "nat \<Rightarrow> 'a debouncer \<Rightarrow> (nat \<times> 'a) list \<Rightarrow> 'a debouncer" where
  "feed delay s [] = s"
| "feed delay s ((t, v) # inputs) = feed delay (render delay t v (advance t s)) inputs"

text \<open>
  The hook at time \<open>now\<close>, mounted at time \<open>t0\<close> with value \<open>v0\<close> and rendered again
  with each of the inputs that have arrived by then.
\<close>

definition useDebounce :: "nat \<Rightarrow> nat \<Rightarrow> 'a \<Rightarrow> (nat \<times> 'a) list \<Rightarrow> nat \<Rightarrow> 'a debouncer" where
  "useDebounce delay t0 v0 inputs now =
     advance now (feed delay (mount delay t0 v0) (takeWhile (\<lambda>(t, v). t \<le> now) inputs))"

text \<open>
  A sequence of input changes after the input at time \<open>t\<close> with value \<open>v\<close>: the times
  do not decrease, and each value differs from the one before it.
\<close>

fun changes :: "nat \<Rightarrow> 'a \<Rightarrow> (nat \<times> 'a) list \<Rightarrow> bool" where
  "changes t v [] = True"
| "changes t v ((t', v') # inputs) = (t \<le> t' \<and> v' \<noteq> v \<and> changes t' v' inputs)"

text \<open>
  Such a sequence in which each change follows the previous input by less than the
  delay.
\<close>

fun burst :: "nat \<Rightarrow> nat \<Rightarrow> 'a \<Rightarrow> (nat \<times> 'a) list \<Rightarrow> bool" where
  "burst delay t v [] = True"
| "burst delay t v ((t', v') # inputs) =
     (t \<le> t' \<and> t' < t + delay \<and> v' \<noteq> v \<and> burst delay t' v' inputs)"

text \<open>
  What the contract of a debouncer asks for by time \<open>now\<close>: each input that stayed the
  latest input for a full delay, with the time at which the delay had passed.
\<close>

fun settled :: "nat \<Rightarrow> nat \<Rightarrow> 'a \<Rightarrow> (nat \<times> 'a) list \<Rightarrow> nat \<Rightarrow> (nat \<times> 'a) list" where
  "settled delay t v [] now = (if t + delay \<le> now then [(t + delay, v)] else [])"
| "settled delay t v ((t', v') # inputs) now =
     (if now < t' then (if t + delay \<le> now then [(t + delay, v)] else [])
      else (if t + delay \<le> t' then [(t + delay, v)] else []) @ settled delay t' v' inputs now)"

section \<open>Errors and the notification (handleError)\<close>

text \<open>
  What a rejected promise or a \<open>throw\<close> carries: an instance of \<open>Error\<close> with its
  message, the \<open>SyntaxError\<close> of the JSON parser (an instance of \<open>Error\<close> too, with a
  message the engine chooses), a string, or any other value.
\<close>

datatype thrown = Error string | SyntaxError | Thrown_string string | Thrown_other

text \<open>
  The handler ends with \<open>toast.error(message)\<close>; the notifications shown so far are
  a list, and the handler adds one. In the first branch the source declares a new
  \<open>const message\<close> inside the block, so the outer \<open>message\<close> that reaches the toast
  is still the empty string there.
\<close>

definition handleError :: "thrown \<Rightarrow> string list \<Rightarrow> string list" where
  "handleError error toasts =
     (let message = [] in
      case error of
        Error m \<Rightarrow> (let inner_message = m in toasts @ [message])
      | SyntaxError \<Rightarrow> toasts @ [message]
      | Thrown_string text \<Rightarrow> (let message = text in toasts @ [message])
      | Thrown_other \<Rightarrow> (let message = ''An error occurred'' in toasts @ [message]))"

section \<open>Fetching (fetchJobItem, fetchJobItems)\<close>

text \<open>
  The HTTP client is outside the program. A response is its \<open>ok\<close> flag and the
  outcome of \<open>res.json()\<close>: a rejection, or the parsed body. Of the parsed body the
  code reads the property \<open>description\<close>, absent when the body has none, and returns
  the body itself as the data.
\<close>

datatype 'd body = Body (description: "string option") (content: 'd)

record 'd response =
  ok :: bool
  json :: "thrown + 'd body"

text \<open>
  The argument is the outcome of \<open>fetch(url)\<close>: a rejection (network failure) or a
  response. \<open>new Error(undefined)\<close> has the empty message.
\<close>

definition fetchJobItem :: "thrown + 'd response \<Rightarrow> thrown + 'd" where
  "fetchJobItem fetched =
     (case fetched of
        Inl e \<Rightarrow> Inl e
      | Inr res \<Rightarrow>
          if \<not> ok res then
            (case json res of
               Inl e \<Rightarrow> Inl e
             | Inr errorData \<Rightarrow>
                 Inl (Error (case description errorData of None \<Rightarrow> [] | Some text \<Rightarrow> text)))
          else
            (case json res of Inl e \<Rightarrow> Inl e | Inr parsed \<Rightarrow> Inr (content parsed)))"

definition fetchJobItems :: "thrown + 'd response \<Rightarrow> thrown + 'd" where
  "fetchJobItems fetched =
     (case fetched of
        Inl e \<Rightarrow> Inl e
      | Inr res \<Rightarrow>
          if \<not> ok res then
            (case json res of
               Inl e \<Rightarrow> Inl e
             | Inr errorData \<Rightarrow>
                 Inl (Error (case description errorData of None \<Rightarrow> [] | Some text \<Rightarrow> text)))
          else
            (case json res of Inl e \<Rightarrow> Inl e | Inr parsed \<Rightarrow> Inr (content parsed)))"

section \<open>The fetch cache (useQuery)\<close>

text \<open>
  Modelled from the spec: the query hook of the caching library, which the hooks of
  this program call with their options (\<open>staleTime\<close> of an hour, \<open>retry: false\<close>,
  \<open>enabled\<close>, \<open>onError\<close>). The cache maps a query key to the data last fetched for it
  and whether that data is still fresh. A disabled query does not invoke its producer
  and is not loading; data younger than the stale time is served without a fetch; a
  query without data that fetches is in its initial loading.
\<close>

record 'd query =
  data :: "'d option"
  isInitialLoading :: bool
  invoked :: bool

definition useQuery :: "('k \<rightharpoonup> 'd \<times> bool) \<Rightarrow> 'k \<Rightarrow> bool \<Rightarrow> 'd query" where
  "useQuery cache queryKey enabled =
     (case cache queryKey of
        None \<Rightarrow> \<lparr>data = None, isInitialLoading = enabled, invoked = enabled\<rparr>
      | Some (d, fresh) \<Rightarrow>
          \<lparr>data = Some d, isInitialLoading = False, invoked = (enabled \<and> \<not> fresh)\<rparr>)"

text \<open>
  Modelled from the spec: how an invoked producer settles. Its data enters the cache
  under the key; its failure is handed once to \<open>onError\<close>, which every hook sets to
  \<open>handleError\<close>, and is not retried. The second component is the list of
  notifications.
\<close>

definition settle ::
  "('k \<rightharpoonup> 'd \<times> bool) \<times> string list \<Rightarrow> 'k \<Rightarrow> bool \<Rightarrow> thrown + 'd
     \<Rightarrow> ('k \<rightharpoonup> 'd \<times> bool) \<times> string list" where
  "settle client queryKey enabled outcome =
     (if invoked (useQuery (fst client) queryKey enabled) then
        (case outcome of
           Inl error \<Rightarrow> (fst client, handleError error (snd client))
         | Inr d \<Rightarrow> ((fst client)(queryKey \<mapsto> (d, True)), snd client))
      else client)"

section \<open>The search query (useSearchQuery)\<close>

text \<open>The field \<open>sorted\<close> of the response type is \<open>sorted_flag\<close> here.\<close>

record JobItemsApiResponse =
  public :: bool
  sorted_flag :: bool
  jobItems :: "JobItem list"

text \<open>\<open>Boolean(searchText)\<close>: only the empty string is falsy.\<close>

definition Boolean_string :: "string \<Rightarrow> bool" where
  "Boolean_string text = (text \<noteq> [])"

text \<open>
  What the two query hooks return: the part of the data they select (\<open>jobItems\<close>,
  \<open>jobItem\<close>), undefined without data, and \<open>isLoading\<close>.
\<close>

record 'a hook_result =
  selected :: "'a option"
  isLoading :: bool

definition useSearchQuery ::
  "(string \<times> string \<rightharpoonup> JobItemsApiResponse \<times> bool) \<Rightarrow> string \<Rightarrow> JobItem list hook_result" where
  "useSearchQuery cache searchText =
     (let q = useQuery cache (''job-items'', searchText) (Boolean_string searchText)
      in \<lparr>selected = map_option jobItems (data q), isLoading = isInitialLoading q\<rparr>)"

text \<open>Whether that call of the hook invokes \<open>fetchJobItems\<close>.\<close>

definition search_fetches ::
  "(string \<times> string \<rightharpoonup> JobItemsApiResponse \<times> bool) \<Rightarrow> string \<Rightarrow> bool" where
  "search_fetches cache searchText =
     invoked (useQuery cache (''job-items'', searchText) (Boolean_string searchText))"

text \<open>
  The life of the cache under the search hook: the hook is called with a search text
  and the fetch, if one is made, settles with the given outcome; or the data of a
  search text grows older than the stale time.
\<close>

datatype search_event =
  Search string "thrown + JobItemsApiResponse response"
  | Expire string

fun search_step ::
  "(string \<times> string \<rightharpoonup> JobItemsApiResponse \<times> bool) \<times> string list \<Rightarrow> search_event
     \<Rightarrow> (string \<times> string \<rightharpoonup> JobItemsApiResponse \<times> bool) \<times> string list" where
  "search_step client (Search searchText fetched) =
     settle client (''job-items'', searchText) (Boolean_string searchText) (fetchJobItems fetched)"
| "search_step client (Expire searchText) =
     (case fst client (''job-items'', searchText) of
        None \<Rightarrow> client
      | Some (d, fresh) \<Rightarrow> ((fst client)((''job-items'', searchText) \<mapsto> (d, False)), snd client))"

definition search_client ::
  "search_event list \<Rightarrow> (string \<times> string \<rightharpoonup> JobItemsApiResponse \<times> bool) \<times> string list" where
  "search_client events = foldl search_step (Map.empty, []) events"

section \<open>Numbers from strings (the unary plus)\<close>

text \<open>
  A JavaScript number as far as the hooks need it: not-a-number, the two infinities,
  or a finite value. The finite value is kept exact; it is the number JavaScript
  computes wherever that value is a double, as every integer up to \<open>2^53\<close> is.
\<close>

datatype number = NaN | PosInfinity | NegInfinity | Num rat

fun position :: "char \<Rightarrow> string \<Rightarrow> nat option" where
  "position c [] = None"
| "position c (x # xs) = (if c = x then Some 0 else map_option Suc (position c xs))"

text \<open>The value of a character as a digit of the given base, if it is one.\<close>

definition digit_in :: "nat \<Rightarrow> char \<Rightarrow> nat option" where
  "digit_in base c =
     (case position c ''0123456789abcdef'' of
        Some d \<Rightarrow> if d < base then Some d else None
      | None \<Rightarrow>
          (case position c ''ABCDEF'' of
             Some d \<Rightarrow> if d + 10 < base then Some (d + 10) else None
           | None \<Rightarrow> None))"

definition is_digit :: "char \<Rightarrow> bool" where
  "is_digit c = (digit_in 10 c \<noteq> None)"

definition digits_value :: "nat \<Rightarrow> string \<Rightarrow> nat" where
  "digits_value base ds =
     foldl (\<lambda>acc c. acc * base + (case digit_in base c of Some d \<Rightarrow> d | None \<Rightarrow> 0)) 0 ds"

text \<open>White space and line terminators, among the characters a URL fragment can hold.\<close>

definition is_space :: "char \<Rightarrow> bool" where
  "is_space c = (c \<in> set [CHR 0x09, CHR 0x0A, CHR 0x0B, CHR 0x0C, CHR 0x0D, CHR '' ''])"

definition trim :: "string \<Rightarrow> string" where
  "trim s = rev (dropWhile is_space (rev (dropWhile is_space s)))"

text \<open>The digits after \<open>0x\<close>, \<open>0o\<close> or \<open>0b\<close>: at least one, all of the base.\<close>

definition based :: "nat \<Rightarrow> string \<Rightarrow> number" where
  "based base ds =
     (if ds \<noteq> [] \<and> list_all (\<lambda>c. digit_in base c \<noteq> None) ds
      then Num (of_nat (digits_value base ds)) else NaN)"

definition radix_literal :: "string \<Rightarrow> number option" where
  "radix_literal s =
     (case s of
        c0 # c1 # ds \<Rightarrow>
          if c0 \<noteq> CHR ''0'' then None
          else if c1 = CHR ''x'' \<or> c1 = CHR ''X'' then Some (based 16 ds)
          else if c1 = CHR ''o'' \<or> c1 = CHR ''O'' then Some (based 8 ds)
          else if c1 = CHR ''b'' \<or> c1 = CHR ''B'' then Some (based 2 ds)
          else None
      | _ \<Rightarrow> None)"

definition unsigned_digits :: "string \<Rightarrow> int option" where
  "unsigned_digits ds =
     (if ds \<noteq> [] \<and> list_all is_digit ds then Some (int (digits_value 10 ds)) else None)"

text \<open>What follows the mantissa: nothing, or \<open>e\<close> and a signed integer.\<close>

definition exponent_part :: "string \<Rightarrow> int option" where
  "exponent_part s =
     (case s of
        [] \<Rightarrow> Some 0
      | c # r \<Rightarrow>
          if c = CHR ''e'' \<or> c = CHR ''E'' then
            (case r of
               [] \<Rightarrow> None
             | sign # ds \<Rightarrow>
                 if sign = CHR ''+'' then unsigned_digits ds
                 else if sign = CHR ''-'' then map_option uminus (unsigned_digits ds)
                 else unsigned_digits r)
          else None)"

text \<open>The value of integer digits, fraction digits and a decimal exponent.\<close>

definition decimal_value :: "string \<Rightarrow> string \<Rightarrow> int \<Rightarrow> rat" where
  "decimal_value ip fp e =
     (of_nat (digits_value 10 ip) + of_nat (digits_value 10 fp) / 10 ^ length fp)
       * (if 0 \<le> e then 10 ^ nat e else 1 / 10 ^ nat (- e))"

definition unsigned_decimal :: "string \<Rightarrow> number" where
  "unsigned_decimal s =
     (if s = ''Infinity'' then PosInfinity
      else
        let ip = takeWhile is_digit s;
            r1 = dropWhile is_digit s;
            dot = (r1 \<noteq> [] \<and> hd r1 = CHR ''.'');
            fp = (if dot then takeWhile is_digit (tl r1) else []);
            r2 = (if dot then dropWhile is_digit (tl r1) else r1)
        in if ip = [] \<and> fp = [] then NaN
           else (case exponent_part r2 of
                   None \<Rightarrow> NaN
                 | Some e \<Rightarrow> Num (decimal_value ip fp e)))"

fun negate :: "number \<Rightarrow> number" where
  "negate NaN = NaN"
| "negate PosInfinity = NegInfinity"
| "negate NegInfinity = PosInfinity"
| "negate (Num r) = Num (- r)"

text \<open>
  The conversion of a string to a number, which the unary plus applies: white space
  around the literal is dropped, the empty string is 0, a literal is decimal (with
  sign, fraction and exponent), \<open>Infinity\<close>, or unsigned hexadecimal, octal or binary;
  every other string is not-a-number.
\<close>

definition to_number :: "string \<Rightarrow> number" where
  "to_number s =
     (let t = trim s in
      if t = [] then Num 0
      else
        (case radix_literal t of
           Some n \<Rightarrow> n
         | None \<Rightarrow>
             if hd t = CHR ''+'' then unsigned_decimal (tl t)
             else if hd t = CHR ''-'' then negate (unsigned_decimal (tl t))
             else unsigned_decimal t))"

text \<open>The decimal digits of a natural number, as it is written in a fragment or in JSON.\<close>

definition digit_char :: "nat \<Rightarrow> char" where
  "digit_char d = ''0123456789'' ! d"

function dec :: "nat \<Rightarrow> string" where
  "dec n = (if n < 10 then [digit_char n] else dec (n div 10) @ [digit_char (n mod 10)])"
  by pat_completeness auto
termination
  by (relation "measure (\<lambda>n. n)") auto

declare dec.simps [simp del]

section \<open>The active id and the detail query (useActiveId, useJobItem)\<close>

text \<open>\<open>Boolean(id)\<close> for a number or null: null, not-a-number and zero are falsy.\<close>

definition Boolean_number :: "number option \<Rightarrow> bool" where
  "Boolean_number active_id =
     (case active_id of
        None \<Rightarrow> False
      | Some NaN \<Rightarrow> False
      | Some (Num r) \<Rightarrow> r \<noteq> 0
      | Some _ \<Rightarrow> True)"

text \<open>
  \<open>+window.location.hash.slice(1)\<close>, stored with \<open>setActiveId\<close>. The cell starts at
  null; the effect runs the handler once at the mount and then at every change of the
  fragment, so the hook yields what the handler stored for the current fragment.
\<close>

definition handleHashChange :: "string \<Rightarrow> number option" where
  "handleHashChange hash = (let new_id = to_number (drop 1 hash) in Some new_id)"

definition useActiveId :: "string \<Rightarrow> number option" where
  "useActiveId hash = handleHashChange hash"

text \<open>The field \<open>public\<close> of this response type is \<open>item_public\<close> here.\<close>

record 'e JobItemApiResponse =
  item_public :: bool
  jobItem :: 'e

definition useJobItem ::
  "(string \<times> number option \<rightharpoonup> 'e JobItemApiResponse \<times> bool) \<Rightarrow> number option
     \<Rightarrow> 'e hook_result" where
  "useJobItem cache active_id =
     (let q = useQuery cache (''job-item'', active_id) (Boolean_number active_id)
      in \<lparr>selected = map_option jobItem (data q), isLoading = isInitialLoading q\<rparr>)"

text \<open>Whether that call of the hook invokes \<open>fetchJobItem\<close>.\<close>

definition job_item_fetches ::
  "(string \<times> number option \<rightharpoonup> 'e JobItemApiResponse \<times> bool) \<Rightarrow> number option \<Rightarrow> bool" where
  "job_item_fetches cache active_id =
     invoked (useQuery cache (''job-item'', active_id) (Boolean_number active_id))"

section \<open>JSON text (JSON.parse, JSON.stringify)\<close>

text \<open>
  A JSON value. A string value keeps the text between its quotes as it is written,
  escapes included; an object keeps its members in the order of the text.
\<close>

datatype json =
  JNull | JBool bool | JNumber rat | JString string
  | JArray "json list" | JObject "(string \<times> json) list"

definition is_json_space :: "char \<Rightarrow> bool" where
  "is_json_space c = (c \<in> set [CHR '' '', CHR 0x09, CHR 0x0A, CHR 0x0D])"

definition skip_ws :: "string \<Rightarrow> string" where
  "skip_ws s = dropWhile is_json_space s"

text \<open>The characters that can follow a backslash on their own.\<close>

definition is_escape :: "char \<Rightarrow> bool" where
  "is_escape e =
     (e \<in> set [CHR 0x22, CHR 0x5C, CHR ''/'', CHR ''b'', CHR ''f'', CHR ''n'', CHR ''r'', CHR ''t''])"

text \<open>
  The rest of a string after its opening quote, up to the closing quote: no control
  characters, and a backslash only in front of one of the escape characters or of
  \<open>u\<close> and four hexadecimal digits.
\<close>

fun scan_string :: "string \<Rightarrow> string \<Rightarrow> (string \<times> string) option" where
  "scan_string acc [] = None"
| "scan_string acc (c # r) =
     (if c = CHR 0x22 then Some (rev acc, r)
      else if c = CHR 0x5C then
        (case r of
           [] \<Rightarrow> None
         | e # r' \<Rightarrow>
             if is_escape e then scan_string (e # c # acc) r'
             else if e = CHR ''u'' \<and> length (take 4 r') = 4
                     \<and> list_all (\<lambda>h. digit_in 16 h \<noteq> None) (take 4 r')
             then scan_string (rev (take 4 r') @ e # c # acc) (drop 4 r')
             else None)
      else if (of_char c :: nat) < 32 then None
      else scan_string (c # acc) r)"

text \<open>
  A number: an optional minus, an integer part without a leading zero (or the single
  digit 0), an optional fraction with at least one digit, an optional exponent with at
  least one digit. Each part returns its digits and the text after them.
\<close>

definition int_part :: "string \<Rightarrow> (string \<times> string) option" where
  "int_part s =
     (if s \<noteq> [] \<and> hd s = CHR ''0'' then Some (''0'', tl s)
      else if takeWhile is_digit s = [] then None
      else Some (takeWhile is_digit s, dropWhile is_digit s))"

definition fraction_part :: "string \<Rightarrow> (string \<times> string) option" where
  "fraction_part s =
     (if s \<noteq> [] \<and> hd s = CHR ''.'' then
        (if takeWhile is_digit (tl s) = [] then None
         else Some (takeWhile is_digit (tl s), dropWhile is_digit (tl s)))
      else Some ([], s))"

definition json_exponent :: "string \<Rightarrow> (int \<times> string) option" where
  "json_exponent s =
     (if s \<noteq> [] \<and> (hd s = CHR ''e'' \<or> hd s = CHR ''E'') then
        (let minus = (tl s \<noteq> [] \<and> hd (tl s) = CHR ''-'');
             plus = (tl s \<noteq> [] \<and> hd (tl s) = CHR ''+'');
             r = (if minus \<or> plus then tl (tl s) else tl s);
             ed = takeWhile is_digit r
         in if ed = [] then None
            else Some ((if minus then - int (digits_value 10 ed) else int (digits_value 10 ed)),
                       dropWhile is_digit r))
      else Some (0, s))"

definition json_number :: "string \<Rightarrow> (rat \<times> string) option" where
  "json_number s =
     (let neg = (s \<noteq> [] \<and> hd s = CHR ''-'') in
      case int_part (if neg then tl s else s) of
        None \<Rightarrow> None
      | Some (ip, r1) \<Rightarrow>
          (case fraction_part r1 of
             None \<Rightarrow> None
           | Some (fp, r2) \<Rightarrow>
               (case json_exponent r2 of
                  None \<Rightarrow> None
                | Some (e, r3) \<Rightarrow>
                    Some ((if neg then - decimal_value ip fp e else decimal_value ip fp e), r3))))"

text \<open>
  The parser, by recursive descent: a value, the elements of an array after its
  opening bracket, the members of an object after its opening brace. Each returns
  the value and the text after it, or nothing for a syntax error. The first argument
  bounds the number of nested calls; \<open>JSON_parse\<close> starts with more than any text of
  that length can use.
\<close>

fun parse_value :: "nat \<Rightarrow> string \<Rightarrow> (json \<times> string) option"
  and parse_elements :: "nat \<Rightarrow> json list \<Rightarrow> string \<Rightarrow> (json \<times> string) option"
  and parse_members :: "nat \<Rightarrow> (string \<times> json) list \<Rightarrow> string \<Rightarrow> (json \<times> string) option"
where
  "parse_value 0 s = None"
| "parse_value (Suc n) s =
     (let t = skip_ws s in
      if t = [] then None
      else if hd t = CHR ''['' then
        (if skip_ws (tl t) \<noteq> [] \<and> hd (skip_ws (tl t)) = CHR '']''
         then Some (JArray [], tl (skip_ws (tl t)))
         else parse_elements n [] (tl t))
      else if hd t = CHR ''{'' then
        (if skip_ws (tl t) \<noteq> [] \<and> hd (skip_ws (tl t)) = CHR ''}''
         then Some (JObject [], tl (skip_ws (tl t)))
         else parse_members n [] (tl t))
      else if hd t = CHR 0x22 then
        map_option (\<lambda>(text, r). (JString text, r)) (scan_string [] (tl t))
      else if take 4 t = ''true'' then Some (JBool True, drop 4 t)
      else if take 5 t = ''false'' then Some (JBool False, drop 5 t)
      else if take 4 t = ''null'' then Some (JNull, drop 4 t)
      else map_option (\<lambda>(r, rest). (JNumber r, rest)) (json_number t))"
| "parse_elements 0 acc s = None"
| "parse_elements (Suc n) acc s =
     (case parse_value n s of
        None \<Rightarrow> None
      | Some (v, r) \<Rightarrow>
          let t = skip_ws r in
          if t = [] then None
          else if hd t = CHR '','' then parse_elements n (acc @ [v]) (tl t)
          else if hd t = CHR '']'' then Some (JArray (acc @ [v]), tl t)
          else None)"
| "parse_members 0 acc s = None"
| "parse_members (Suc n) acc s =
     (let t = skip_ws s in
      if t = [] \<or> hd t \<noteq> CHR 0x22 then None
      else
        (case scan_string [] (tl t) of
           None \<Rightarrow> None
         | Some (k, r) \<Rightarrow>
             let t1 = skip_ws r in
             if t1 = [] \<or> hd t1 \<noteq> CHR '':'' then None
             else
               (case parse_value n (tl t1) of
                  None \<Rightarrow> None
                | Some (v, r') \<Rightarrow>
                    let t2 = skip_ws r' in
                    if t2 = [] then None
                    else if hd t2 = CHR '','' then parse_members n (acc @ [(k, v)]) (tl t2)
                    else if hd t2 = CHR ''}'' then Some (JObject (acc @ [(k, v)]), tl t2)
                    else None)))"

text \<open>\<open>JSON.parse\<close>: one value with nothing but white space after it, or a \<open>SyntaxError\<close>.\<close>

definition JSON_parse :: "string \<Rightarrow> thrown + json" where
  "JSON_parse text =
     (case parse_value (Suc (2 * length text)) text of
        None \<Rightarrow> Inl SyntaxError
      | Some (v, r) \<Rightarrow> if skip_ws r = [] then Inr v else Inl SyntaxError)"

text \<open>
  \<open>JSON.stringify\<close> at the type of the bookmark store, an array of integer ids: the
  decimal numbers between brackets, with commas and no white space.
\<close>

definition show_int :: "int \<Rightarrow> string" where
  "show_int i = (if i < 0 then CHR ''-'' # dec (nat (- i)) else dec (nat i))"

fun join_commas :: "string list \<Rightarrow> string" where
  "join_commas [] = []"
| "join_commas [x] = x"
| "join_commas (x # y # r) = x @ CHR '','' # join_commas (y # r)"

definition JSON_stringify :: "int list \<Rightarrow> string" where
  "JSON_stringify ids = CHR ''['' # join_commas (map show_int ids) @ '']''"

text \<open>The JSON value that is an array of the given ids.\<close>

definition json_of_ids :: "int list \<Rightarrow> json" where
  "json_of_ids ids = JArray (map (\<lambda>i. JNumber (of_int i)) ids)"

text \<open>Text that can follow a number inside an array or object, or its end.\<close>

definition ends_number :: "string \<Rightarrow> bool" where
  "ends_number rest = (rest = [] \<or> hd rest \<in> set '',]} '')"

section \<open>The persisted store (useLocalStorage)\<close>

text \<open>
  Local storage maps keys to strings; \<open>getItem\<close> of a key that is not there is null.
  The initial state of the hook is
  \<open>JSON.parse(localStorage.getItem(key) || JSON.stringify(initialValue))\<close>, where null
  and the empty string are the falsy strings; an exception of the initialiser leaves
  the hook. The initial value is the array of ids the bookmark store starts with.
\<close>

definition useLocalStorage :: "(string \<rightharpoonup> string) \<Rightarrow> string \<Rightarrow> int list \<Rightarrow> thrown + json" where
  "useLocalStorage storage key initialValue =
     (case storage key of
        None \<Rightarrow> JSON_parse (JSON_stringify initialValue)
      | Some text \<Rightarrow>
          if text = [] then JSON_parse (JSON_stringify initialValue) else JSON_parse text)"

text \<open>The effect of the hook: \<open>localStorage.setItem(key, JSON.stringify(value))\<close>.\<close>

definition persist :: "(string \<rightharpoonup> string) \<Rightarrow> string \<Rightarrow> int list \<Rightarrow> (string \<rightharpoonup> string)" where
  "persist storage key v = storage(key \<mapsto> JSON_stringify v)"

section \<open>Sorting\<close>

lemma set_insert_sorted: "set (insert_sorted cmp x xs) = insert x (set xs)"
  by (induction xs) auto

lemma mset_insert_sorted: "mset (insert_sorted cmp x xs) = add_mset x (mset xs)"
  by (induction xs) auto

lemma mset_array_sort: "mset (array_sort cmp xs) = mset xs"
  by (induction xs) (auto simp: mset_insert_sorted)

lemma sorted_insert_sorted:
  assumes total: "\<And>a b. cmp a b \<le> 0 \<or> cmp b a \<le> 0"
    and trans: "\<And>a b c. cmp a b \<le> 0 \<Longrightarrow> cmp b c \<le> 0 \<Longrightarrow> cmp a c \<le> 0"
    and sorted: "sorted_wrt (\<lambda>a b. cmp a b \<le> 0) xs"
  shows "sorted_wrt (\<lambda>a b. cmp a b \<le> 0) (insert_sorted cmp x xs)"
  using sorted
proof (induction xs)
  case Nil
  then show ?case by simp
next
  case (Cons y ys)
  show ?case
  proof (cases "cmp x y \<le> 0")
    case True
    with Cons.prems trans show ?thesis by auto
  next
    case False
    with total have "cmp y x \<le> 0" by blast
    with False Cons show ?thesis by (auto simp: set_insert_sorted)
  qed
qed

lemma sorted_array_sort:
  assumes total: "\<And>a b. cmp a b \<le> 0 \<or> cmp b a \<le> 0"
    and trans: "\<And>a b c. cmp a b \<le> 0 \<Longrightarrow> cmp b c \<le> 0 \<Longrightarrow> cmp a c \<le> 0"
  shows "sorted_wrt (\<lambda>a b. cmp a b \<le> 0) (array_sort cmp xs)"
proof (induction xs)
  case Nil
  show ?case by simp
next
  case (Cons x xs)
  from sorted_insert_sorted [of cmp "array_sort cmp xs" x, OF total trans Cons.IH]
  show ?case by simp
qed

lemma insert_sorted_front:
  "cmp x (hd xs) \<le> 0 \<or> xs = [] \<Longrightarrow> insert_sorted cmp x xs = x # xs"
  by (cases xs) auto

lemma array_sort_zero:
  assumes "\<And>a b. cmp a b = 0"
  shows "array_sort cmp xs = xs"
proof (induction xs)
  case Nil
  show ?case by simp
next
  case (Cons x xs)
  have "insert_sorted cmp x xs = x # xs"
    by (rule insert_sorted_front) (simp add: assms)
  with Cons show ?case by simp
qed

lemma sorted_relevant:
  "sorted_wrt (\<lambda>a b. relevanceScore b \<le> relevanceScore a) (jobItemsSorted ''relevant'' job_items)"
proof -
  have "sorted_wrt (\<lambda>a b. comparator ''relevant'' a b \<le> 0)
          (array_sort (comparator ''relevant'') (or_empty job_items))"
    by (rule sorted_array_sort) (auto simp: comparator_def)
  then show ?thesis by (simp add: jobItemsSorted_def comparator_def)
qed

lemma sorted_recent:
  "sorted_wrt (\<lambda>a b. daysAgo a \<le> daysAgo b) (jobItemsSorted ''recent'' job_items)"
proof -
  have "sorted_wrt (\<lambda>a b. comparator ''recent'' a b \<le> 0)
          (array_sort (comparator ''recent'') (or_empty job_items))"
    by (rule sorted_array_sort) (auto simp: comparator_def)
  then show ?thesis by (simp add: jobItemsSorted_def comparator_def)
qed

lemma sorted_unrecognized:
  assumes "sort_by \<noteq> ''relevant''" "sort_by \<noteq> ''recent''"
  shows "jobItemsSorted sort_by job_items = or_empty job_items"
  unfolding jobItemsSorted_def
  by (rule array_sort_zero) (simp add: comparator_def assms)

text \<open>
  Claim C1. Whatever the job list and the value of \<open>sortBy\<close>: under \<open>relevant\<close> the
  sorted list never increases in relevance score from one entry to any later one, under
  \<open>recent\<close> it never decreases in days; for every other value the comparator is 0 on
  every pair and the list keeps its order. In each case the sorted list holds the
  entries of the job list, each as often as before.
\<close>

theorem jobItemsSorted_order:
  "(sort_by = ''relevant'' \<longrightarrow>
      sorted_wrt (\<lambda>a b. relevanceScore b \<le> relevanceScore a) (jobItemsSorted sort_by job_items))
   \<and> (sort_by = ''recent'' \<longrightarrow>
      sorted_wrt (\<lambda>a b. daysAgo a \<le> daysAgo b) (jobItemsSorted sort_by job_items))
   \<and> (sort_by \<noteq> ''relevant'' \<and> sort_by \<noteq> ''recent'' \<longrightarrow>
      (\<forall>a b. comparator sort_by a b = 0) \<and> jobItemsSorted sort_by job_items = or_empty job_items)
   \<and> mset (jobItemsSorted sort_by job_items) = mset (or_empty job_items)"
proof -
  have "sort_by \<noteq> ''relevant'' \<and> sort_by \<noteq> ''recent'' \<longrightarrow> (\<forall>a b. comparator sort_by a b = 0)"
    by (simp add: comparator_def)
  moreover have "mset (jobItemsSorted sort_by job_items) = mset (or_empty job_items)"
    by (simp add: jobItemsSorted_def mset_array_sort)
  ultimately show ?thesis
    using sorted_relevant sorted_recent sorted_unrecognized by blast
qed

theorem jobItemsSorted_order_witness:
  "sorted_wrt (\<lambda>a b. relevanceScore b \<le> relevanceScore a)
     (jobItemsSorted ''relevant'' (Some [job 1 0.9 5, job 2 0.95 10]))
   \<and> jobItemsSorted ''relevant'' (Some [job 1 0.9 5, job 2 0.95 10]) = [job 2 0.95 10, job 1 0.9 5]
   \<and> sorted_wrt (\<lambda>a b. daysAgo a \<le> daysAgo b)
     (jobItemsSorted ''recent'' (Some [job 1 0.9 5, job 2 0.95 10]))
   \<and> jobItemsSorted ''recent'' (Some [job 1 0.9 5, job 2 0.95 10]) = [job 1 0.9 5, job 2 0.95 10]
   \<and> jobItemsSorted ''newest'' (Some [job 1 0.9 5, job 2 0.95 10]) = [job 1 0.9 5, job 2 0.95 10]"
  using jobItemsSorted_order [of "''relevant''" "Some [job 1 0.9 5, job 2 0.95 10]"]
    jobItemsSorted_order [of "''recent''" "Some [job 1 0.9 5, job 2 0.95 10]"]
    jobItemsSorted_order [of "''newest''" "Some [job 1 0.9 5, job 2 0.95 10]"]
  by (simp add: jobItemsSorted_def or_empty_def comparator_def job_def)

section \<open>Pagination\<close>

lemma take_drop_pages:
  "concat (map (\<lambda>p. take r (drop (p * r) xs)) [0 ..< k]) = take (k * r) xs"
proof (induction k)
  case 0
  show ?case by simp
next
  case (Suc k)
  have "take (k * r) xs @ take r (drop (k * r) xs) = take (k * r + r) xs"
    by (simp add: take_add)
  with Suc show ?case by (simp add: add.commute)
qed

lemma take_clamped: "take (min n (length ys)) ys = take n ys"
  by (cases "n \<le> length ys") (simp_all add: min_def)

lemma array_slice_window:
  assumes "0 \<le> start" "start \<le> fin"
  shows "array_slice xs start fin = take (nat (fin - start)) (drop (nat start) xs)"
proof (cases "start \<le> int (length xs)")
  case True
  have "nat (min fin (int (length xs)) - start) = min (nat (fin - start)) (length (drop (nat start) xs))"
    using assms True by (simp add: min_def) linarith
  moreover have "array_slice xs start fin =
      take (nat (min fin (int (length xs)) - start)) (drop (nat start) xs)"
    using assms True by (simp add: array_slice_def Let_def min_absorb1)
  ultimately show ?thesis
    using take_clamped [of "nat (fin - start)" "drop (nat start) xs"] by simp
next
  case False
  then show ?thesis
    using assms by (simp add: array_slice_def Let_def min_def)
qed

lemma slice_page:
  assumes "0 < R" "0 < cp"
  shows "jobItemsSortedAndSliced R cp xs = take (nat R) (drop (nat (cp - 1) * nat R) xs)"
proof -
  have s: "cp * R - R = (cp - 1) * R" by (simp add: algebra_simps)
  have "0 \<le> (cp - 1) * R" using assms by simp
  moreover have "(cp - 1) * R \<le> cp * R" using assms by (simp add: algebra_simps)
  moreover have "nat (cp * R - (cp - 1) * R) = nat R" by (simp add: algebra_simps)
  moreover have "nat ((cp - 1) * R) = nat (cp - 1) * nat R"
    using assms by (simp add: nat_mult_distrib)
  ultimately show ?thesis
    unfolding jobItemsSortedAndSliced_def s by (simp add: array_slice_window)
qed

lemma page_count_covers:
  assumes "0 < R"
  shows "n \<le> page_count R n * nat R"
proof -
  define q where "q = (int n + R - 1) div R"
  have "int n + R - 1 < (q + 1) * R"
    unfolding q_def using assms
    by (metis add.commute distrib_right mult.commute mult_1 div_mult_mod_eq
        add_strict_left_mono pos_mod_bound)
  then have "int n \<le> q * R" by (simp add: algebra_simps)
  moreover have "0 \<le> q" unfolding q_def using assms by (simp add: pos_imp_zdiv_nonneg_iff)
  ultimately have "int n \<le> int (nat q * nat R)" using assms by simp
  then show ?thesis unfolding page_count_def q_def by linarith
qed

lemma concat_all_pages:
  assumes "0 < R"
  shows "concat (all_pages R xs) = xs"
proof -
  let ?k = "page_count R (length xs)"
  have "all_pages R xs = map (\<lambda>p. take (nat R) (drop (p * nat R) xs)) [0 ..< ?k]"
  proof -
    have "[1 ..< Suc ?k] = map Suc [0 ..< ?k]"
      by (simp add: map_Suc_upt)
    then have "all_pages R xs = map (\<lambda>p. jobItemsSortedAndSliced R (int (Suc p)) xs) [0 ..< ?k]"
      by (simp add: all_pages_def comp_def)
    also have "\<dots> = map (\<lambda>p. take (nat R) (drop (p * nat R) xs)) [0 ..< ?k]"
      using assms by (simp add: slice_page)
    finally show ?thesis .
  qed
  then have "concat (all_pages R xs) = take (?k * nat R) xs"
    by (simp add: take_drop_pages)
  with page_count_covers [OF assms, of "length xs"] show ?thesis by simp
qed

lemma page_count_bounds:
  assumes "0 < R"
  shows "int n \<le> int (page_count R n) * R" and "int (page_count R n) * R < int n + R"
proof -
  define q where "q = (int n + R - 1) div R"
  define m where "m = (int n + R - 1) mod R"
  have eq: "q * R + m = int n + R - 1"
    unfolding q_def m_def by simp
  have m: "0 \<le> m" "m < R"
    unfolding m_def using assms by simp_all
  have "0 \<le> q" unfolding q_def using assms by (simp add: pos_imp_zdiv_nonneg_iff)
  then have pc: "int (page_count R n) = q"
    by (simp add: page_count_def q_def)
  have "int n + R - 1 < q * R + R" using eq m by linarith
  then show "int n \<le> int (page_count R n) * R" unfolding pc by linarith
  show "int (page_count R n) * R < int n + R" unfolding pc using eq m by linarith
qed

lemma page_count_ceiling:
  assumes "0 < R"
  shows "int (page_count R n) = \<lceil>real n / real_of_int R\<rceil>"
proof -
  let ?q = "int (page_count R n)"
  have R: "0 < real_of_int R" using assms by simp
  from page_count_bounds [OF assms, of n]
  have "real_of_int (int n) \<le> real_of_int (?q * R)"
    and "real_of_int (?q * R) < real_of_int (int n + R)"
    by linarith+
  then have a: "real n \<le> real_of_int ?q * real_of_int R"
    and b: "real_of_int ?q * real_of_int R < real n + real_of_int R"
    by simp_all
  from a R have "real n / real_of_int R \<le> real_of_int ?q"
    by (simp add: pos_divide_le_eq)
  moreover from b R have "real_of_int ?q - 1 < real n / real_of_int R"
    by (simp add: field_simps)
  ultimately have "\<lceil>real n / real_of_int R\<rceil> = ?q"
    by (intro ceiling_unique) simp_all
  then show ?thesis by simp
qed

text \<open>
  Claim C2. For a positive page size and a positive current page, the page shown is
  the part of the sorted list from index \<open>(currentPage - 1) * pageSize\<close> up to, not
  including, index \<open>currentPage * pageSize\<close>; it is never longer than the page size;
  and the pages 1 to \<open>ceil(total / pageSize)\<close>, one after the other, are the sorted list,
  each entry once.
\<close>

theorem pagination_slices:
  assumes "0 < RESULTS_PER_PAGE" and "0 < page"
  shows "jobItemsSortedAndSliced RESULTS_PER_PAGE page sorted_items =
           take (nat RESULTS_PER_PAGE)
             (drop (nat ((page - 1) * RESULTS_PER_PAGE)) sorted_items)
         \<and> length (jobItemsSortedAndSliced RESULTS_PER_PAGE page sorted_items)
             \<le> nat RESULTS_PER_PAGE
         \<and> concat (all_pages RESULTS_PER_PAGE sorted_items) = sorted_items
         \<and> length (all_pages RESULTS_PER_PAGE sorted_items) =
             nat \<lceil>real (length sorted_items) / real_of_int RESULTS_PER_PAGE\<rceil>"
proof -
  have "nat ((page - 1) * RESULTS_PER_PAGE) = nat (page - 1) * nat RESULTS_PER_PAGE"
    using assms by (simp add: nat_mult_distrib)
  moreover have "length (all_pages RESULTS_PER_PAGE sorted_items) =
      nat \<lceil>real (length sorted_items) / real_of_int RESULTS_PER_PAGE\<rceil>"
  proof -
    have "length (all_pages RESULTS_PER_PAGE sorted_items) =
        page_count RESULTS_PER_PAGE (length sorted_items)"
      by (simp add: all_pages_def)
    also have "\<dots> = nat (int (page_count RESULTS_PER_PAGE (length sorted_items)))"
      by simp
    finally show ?thesis
      by (simp only: page_count_ceiling [OF assms(1)])
  qed
  ultimately show ?thesis
    using assms by (simp add: slice_page concat_all_pages)
qed

theorem pagination_slices_witness:
  "(0::int) < 3 \<and> (0::int) < 2
   \<and> jobItemsSortedAndSliced 3 2 (map (\<lambda>i. job i 0 0) [1, 2, 3, 4, 5, 6, 7])
       = map (\<lambda>i. job i 0 0) [4, 5, 6]
   \<and> length (jobItemsSortedAndSliced 3 2 (map (\<lambda>i. job i 0 0) [1, 2, 3, 4, 5, 6, 7])) \<le> nat 3
   \<and> concat (all_pages 3 (map (\<lambda>i. job i 0 0) [1, 2, 3, 4, 5, 6, 7]))
       = map (\<lambda>i. job i 0 0) [1, 2, 3, 4, 5, 6, 7]
   \<and> length (all_pages 3 (map (\<lambda>i. job i 0 0) [1, 2, 3, 4, 5, 6, 7])) = 3"
  using pagination_slices [of 3 2 "map (\<lambda>i. job i 0 0) [1, 2, 3, 4, 5, 6, 7]"]
  by simp

section \<open>Page navigation\<close>

lemma page_nonempty_iff:
  assumes "0 < R" "0 < cp"
  shows "jobItemsSortedAndSliced R cp xs \<noteq> [] \<longleftrightarrow> cp \<le> int (page_count R (length xs))"
proof -
  let ?q = "int (page_count R (length xs))"
  have "jobItemsSortedAndSliced R cp xs \<noteq> [] \<longleftrightarrow> nat (cp - 1) * nat R < length xs"
    using assms by (simp add: slice_page not_le)
  also have "\<dots> \<longleftrightarrow> (cp - 1) * R < int (length xs)"
  proof -
    have "int (nat (cp - 1) * nat R) = (cp - 1) * R" using assms by simp
    then show ?thesis by linarith
  qed
  also have "\<dots> \<longleftrightarrow> cp \<le> ?q"
  proof
    assume l: "(cp - 1) * R < int (length xs)"
    show "cp \<le> ?q"
    proof (rule ccontr)
      assume "\<not> cp \<le> ?q"
      then have "?q + 1 \<le> cp" by simp
      then have "?q * R \<le> (cp - 1) * R" using assms by (simp add: mult_right_mono)
      with page_count_bounds(1) [OF assms(1), of "length xs"] l show False by linarith
    qed
  next
    assume "cp \<le> ?q"
    then have "cp * R \<le> ?q * R" using assms by (simp add: mult_right_mono)
    with page_count_bounds(2) [OF assms(1), of "length xs"]
    show "(cp - 1) * R < int (length xs)" by (simp add: algebra_simps)
  qed
  finally show ?thesis .
qed

lemma next_page_exists_iff:
  assumes "0 < R" "0 < cp"
  shows "real_of_int cp < totalNumberOfPages R job_items
           \<longleftrightarrow> cp + 1 \<le> int (page_count R (length (or_empty job_items)))"
proof -
  have n: "totalNumberOfResults job_items = int (length (or_empty job_items))"
    by (simp add: totalNumberOfResults_def or_empty_def split: option.splits)
  let ?n = "length (or_empty job_items)"
  have "real_of_int cp < totalNumberOfPages R job_items \<longleftrightarrow> real_of_int cp < real ?n / real_of_int R"
    by (simp add: totalNumberOfPages_def n)
  also have "\<dots> \<longleftrightarrow> cp < \<lceil>real ?n / real_of_int R\<rceil>"
    by (simp add: less_ceiling_iff)
  also have "\<dots> \<longleftrightarrow> cp + 1 \<le> int (page_count R ?n)"
    using page_count_ceiling [OF assms(1), of ?n] by linarith
  finally show ?thesis .
qed

lemma length_jobItemsSorted: "length (jobItemsSorted sort_by job_items) = length (or_empty job_items)"
  using mset_array_sort [of "comparator sort_by" "or_empty job_items"]
  by (metis jobItemsSorted_def size_mset)

lemma totalNumberOfResults_length:
  "totalNumberOfResults job_items = int (length (or_empty job_items))"
  by (simp add: totalNumberOfResults_def or_empty_def split: option.splits)

lemma sort_change_resets_page: "currentPage (step s (ChangeSortBy newSortBy)) = 1"
  by (simp add: handleChangeSortBy_def)

lemma search_text_change_leaves_page: "currentPage (step s (ChangeSearchText text)) = currentPage s"
  by (simp add: searchTextChanged_def)

text \<open>
  Claim C3. After a step that changes the sort order the current page is 1. A step
  that changes the debounced search text leaves the current page where it was: from
  the initial state, two steps to the next page and a new search text end on page 3.
\<close>

theorem search_text_change_keeps_page:
  "currentPage (step s (ChangeSortBy newSortBy)) = 1
   \<and> currentPage (run (initial_state ''react'')
      [ChangePage ''next'', ChangePage ''next'', ChangeSearchText ''vue'']) = 3
   \<and> debouncedSearchText (run (initial_state ''react'')
      [ChangePage ''next'', ChangePage ''next'', ChangeSearchText ''vue'']) = ''vue''"
  by (simp add: run_def initial_state_def handleChangePage_def handleChangeSortBy_def
      searchTextChanged_def)

text \<open>
  Claim C4, as stated, fails: one step \<open>previous\<close> from the initial state reaches page
  0, where the window over ten results (seven to a page) is empty, and the exposed
  number of pages is the quotient 10 / 7, not 2.
\<close>

theorem page_navigation_counterexample:
  "currentPage (run (initial_state ''react'') [ChangePage ''previous'']) = 0
   \<and> shown 7 (run (initial_state ''react'') [ChangePage ''previous''])
        (Some (map (\<lambda>i. job i 0 0) [1, 2, 3, 4, 5, 6, 7, 8, 9, 10])) = []
   \<and> totalNumberOfResults (Some (map (\<lambda>i. job i 0 0) [1, 2, 3, 4, 5, 6, 7, 8, 9, 10])) = 10
   \<and> totalNumberOfPages 7 (Some (map (\<lambda>i. job i 0 0) [1, 2, 3, 4, 5, 6, 7, 8, 9, 10]))
        \<noteq> real (page_count 7 10)"
  by (simp add: run_def initial_state_def handleChangePage_def shown_def
      jobItemsSortedAndSliced_def array_slice_def totalNumberOfResults_def
      totalNumberOfPages_def page_count_def)

text \<open>
  Claim C4, amended. The handler does not clamp: \<open>next\<close> adds 1 to the current page
  and \<open>previous\<close> subtracts 1, in every state. For a positive page size and a current
  page of at least 1, the window is not empty exactly when the current page is at most
  \<open>ceil(totalResults / pageSize)\<close>. The exposed \<open>totalNumberOfPages\<close> is the quotient
  \<open>totalResults / pageSize\<close> itself; rounded up it is that number of pages, and the
  current page lies below it exactly when the next page is not empty.
\<close>

theorem page_navigation_unclamped:
  assumes "0 < RESULTS_PER_PAGE"
  shows "currentPage (handleChangePage ''next'' s) = currentPage s + 1
    \<and> currentPage (handleChangePage ''previous'' s) = currentPage s - 1
    \<and> (0 < currentPage s \<longrightarrow>
         (shown RESULTS_PER_PAGE s job_items \<noteq> [] \<longleftrightarrow>
            currentPage s \<le> int (page_count RESULTS_PER_PAGE (length (or_empty job_items)))))
    \<and> totalNumberOfPages RESULTS_PER_PAGE job_items =
         real (length (or_empty job_items)) / real_of_int RESULTS_PER_PAGE
    \<and> \<lceil>totalNumberOfPages RESULTS_PER_PAGE job_items\<rceil> =
         int (page_count RESULTS_PER_PAGE (length (or_empty job_items)))
    \<and> (0 < currentPage s \<longrightarrow>
         (real_of_int (currentPage s) < totalNumberOfPages RESULTS_PER_PAGE job_items \<longleftrightarrow>
            shown RESULTS_PER_PAGE (handleChangePage ''next'' s) job_items \<noteq> []))"
proof -
  let ?n = "length (or_empty job_items)"
  have nav: "currentPage (handleChangePage ''next'' s) = currentPage s + 1"
    "currentPage (handleChangePage ''previous'' s) = currentPage s - 1"
    "sortBy (handleChangePage ''next'' s) = sortBy s"
    by (simp_all add: handleChangePage_def)
  have window: "shown RESULTS_PER_PAGE t job_items \<noteq> [] \<longleftrightarrow>
      currentPage t \<le> int (page_count RESULTS_PER_PAGE ?n)" if "0 < currentPage t" for t
    unfolding shown_def
    using page_nonempty_iff [OF assms that, of "jobItemsSorted (sortBy t) job_items"]
    by (simp add: length_jobItemsSorted)
  have quot: "totalNumberOfPages RESULTS_PER_PAGE job_items = real ?n / real_of_int RESULTS_PER_PAGE"
    by (simp add: totalNumberOfPages_def totalNumberOfResults_length)
  have ceil: "\<lceil>totalNumberOfPages RESULTS_PER_PAGE job_items\<rceil> = int (page_count RESULTS_PER_PAGE ?n)"
    unfolding quot using page_count_ceiling [OF assms, of ?n] by simp
  have "real_of_int (currentPage s) < totalNumberOfPages RESULTS_PER_PAGE job_items \<longleftrightarrow>
      shown RESULTS_PER_PAGE (handleChangePage ''next'' s) job_items \<noteq> []" if "0 < currentPage s"
    using next_page_exists_iff [OF assms that, of job_items]
      window [of "handleChangePage ''next'' s"] that
    by (simp add: nav)
  with nav window [of s] quot ceil show ?thesis by blast
qed

theorem page_navigation_unclamped_witness:
  "(0::int) < 7 \<and> 0 < currentPage (initial_state ''react'')
   \<and> currentPage (handleChangePage ''next'' (initial_state ''react'')) = 2
   \<and> currentPage (handleChangePage ''previous'' (initial_state ''react'')) = 0
   \<and> shown 7 (initial_state ''react'')
        (Some (map (\<lambda>i. job i 0 0) [1, 2, 3, 4, 5, 6, 7, 8, 9, 10])) \<noteq> []
   \<and> totalNumberOfPages 7 (Some (map (\<lambda>i. job i 0 0) [1, 2, 3, 4, 5, 6, 7, 8, 9, 10])) = 10 / 7
   \<and> shown 7 (handleChangePage ''next'' (initial_state ''react''))
        (Some (map (\<lambda>i. job i 0 0) [1, 2, 3, 4, 5, 6, 7, 8, 9, 10])) \<noteq> []"
  using page_navigation_unclamped [of 7 "initial_state ''react''"
      "Some (map (\<lambda>i. job i 0 0) [1, 2, 3, 4, 5, 6, 7, 8, 9, 10])"]
  by (simp add: initial_state_def page_count_def or_empty_def totalNumberOfPages_def
      totalNumberOfResults_def)

section \<open>Debouncing\<close>

lemma burst_last_time: "burst delay t v inputs \<Longrightarrow> t \<le> fst (last ((t, v) # inputs))"
proof (induction inputs arbitrary: t v)
  case Nil
  show ?case by simp
next
  case (Cons a inputs)
  obtain t' v' where a: "a = (t', v')" by (cases a)
  with Cons.prems have "t \<le> t'" "burst delay t' v' inputs" by simp_all
  with Cons.IH [of t' v'] a show ?case by simp
qed

lemma feed_settled:
  assumes "timer s = Some (t + delay, v)" and "dep_value s = v" and "changes t v inputs"
  shows "propagated (advance now (feed delay s (takeWhile (\<lambda>(t, v). t \<le> now) inputs))) =
           propagated s @ settled delay t v inputs now
       \<and> debouncedValue (advance now (feed delay s (takeWhile (\<lambda>(t, v). t \<le> now) inputs))) =
           (if settled delay t v inputs now = [] then debouncedValue s
            else snd (last (settled delay t v inputs now)))"
  using assms
proof (induction inputs arbitrary: s t v)
  case Nil
  then show ?case by (simp add: advance_def)
next
  case (Cons a inputs)
  obtain t' v' where a: "a = (t', v')" by (cases a)
  from Cons.prems a have b: "t \<le> t'" "v' \<noteq> v" "changes t' v' inputs" by simp_all
  show ?case
  proof (cases "t' \<le> now")
    case True
    let ?s1 = "advance t' s"
    let ?s2 = "render delay t' v' ?s1"
    have s1: "dep_value ?s1 = v"
      "propagated ?s1 = propagated s @ (if t + delay \<le> t' then [(t + delay, v)] else [])"
      "debouncedValue ?s1 = (if t + delay \<le> t' then v else debouncedValue s)"
      using Cons.prems(1,2) by (simp_all add: advance_def)
    have s2: "timer ?s2 = Some (t' + delay, v')" "dep_value ?s2 = v'"
      "propagated ?s2 = propagated ?s1" "debouncedValue ?s2 = debouncedValue ?s1"
      using s1(1) b(2) by (simp_all add: render_def)
    from Cons.IH [OF s2(1,2) b(3)] True a s1 s2 show ?thesis
      by (simp add: not_less)
  next
    case False
    then show ?thesis
      using a Cons.prems(1) by (simp add: advance_def)
  qed
qed

lemma burst_changes: "burst delay t v inputs \<Longrightarrow> changes t v inputs"
  by (induction inputs arbitrary: t v) auto

lemma burst_settled:
  assumes "burst delay t v inputs" "t \<le> now"
  shows "settled delay t v inputs now =
     (if fst (last ((t, v) # inputs)) + delay \<le> now
      then [(fst (last ((t, v) # inputs)) + delay, snd (last ((t, v) # inputs)))] else [])"
  using assms
proof (induction inputs arbitrary: t v)
  case Nil
  then show ?case by simp
next
  case (Cons a inputs)
  obtain t' v' where a: "a = (t', v')" by (cases a)
  from Cons.prems a have b: "t \<le> t'" "t' < t + delay" "burst delay t' v' inputs" by simp_all
  show ?case
  proof (cases "now < t'")
    case True
    from burst_last_time [OF b(3)] True have "\<not> fst (last ((t', v') # inputs)) + delay \<le> now"
      by simp
    with True b a show ?thesis by simp
  next
    case False
    with Cons.IH [OF b(3)] a b show ?thesis by simp
  qed
qed

text \<open>
  Claim C9. A changed input replaces the pending timeout by one that is due a full
  delay later. For every sequence of input changes, at every time from the mount on,
  the values propagated so far are the inputs that stayed the latest input for a full
  delay, each once, at the time of that input plus the delay; an input that is
  replaced sooner is never propagated. So for inputs that follow each other by less
  than the delay: nothing has been propagated before the time of the last input plus
  the delay, and from that time on exactly one value has been propagated, the last
  input, at that time; the debounced value is the initial value before and the last
  input after.
\<close>

theorem debounce_propagation:
  assumes "changes t0 v0 inputs" and "t0 \<le> now"
  shows "(v \<noteq> dep_value s \<longrightarrow> timer (render delay t v s) = Some (t + delay, v))
    \<and> propagated (useDebounce delay t0 v0 inputs now) = settled delay t0 v0 inputs now
    \<and> debouncedValue (useDebounce delay t0 v0 inputs now) =
        (if settled delay t0 v0 inputs now = [] then v0
         else snd (last (settled delay t0 v0 inputs now)))
    \<and> (burst delay t0 v0 inputs \<longrightarrow>
        propagated (useDebounce delay t0 v0 inputs now) =
          (if fst (last ((t0, v0) # inputs)) + delay \<le> now
           then [(fst (last ((t0, v0) # inputs)) + delay, snd (last ((t0, v0) # inputs)))]
           else [])
        \<and> debouncedValue (useDebounce delay t0 v0 inputs now) =
          (if fst (last ((t0, v0) # inputs)) + delay \<le> now
           then snd (last ((t0, v0) # inputs)) else v0))"
proof -
  have m: "timer (mount delay t0 v0) = Some (t0 + delay, v0)" "dep_value (mount delay t0 v0) = v0"
    "propagated (mount delay t0 v0) = []" "debouncedValue (mount delay t0 v0) = v0"
    by (simp_all add: mount_def)
  from feed_settled [OF m(1,2) assms(1), of now]
  have general: "propagated (useDebounce delay t0 v0 inputs now) = settled delay t0 v0 inputs now"
    "debouncedValue (useDebounce delay t0 v0 inputs now) =
        (if settled delay t0 v0 inputs now = [] then v0
         else snd (last (settled delay t0 v0 inputs now)))"
    by (simp_all add: useDebounce_def m)
  have "v \<noteq> dep_value s \<longrightarrow> timer (render delay t v s) = Some (t + delay, v)"
    by (simp add: render_def)
  with general burst_settled [OF _ assms(2), of delay v0 inputs] show ?thesis
    by simp
qed

theorem debounce_propagation_witness:
  "changes 0 ''a'' [(10, ''ab''), (20, ''abc'')] \<and> burst 500 0 ''a'' [(10, ''ab''), (20, ''abc'')]
   \<and> timer (render 500 10 ''ab'' (mount 500 0 ''a'')) = Some (510, ''ab'')
   \<and> propagated (useDebounce 500 0 ''a'' [(10, ''ab''), (20, ''abc'')] 15) = []
   \<and> propagated (useDebounce 500 0 ''a'' [(10, ''ab''), (20, ''abc'')] 519) = []
   \<and> debouncedValue (useDebounce 500 0 ''a'' [(10, ''ab''), (20, ''abc'')] 519) = ''a''
   \<and> propagated (useDebounce 500 0 ''a'' [(10, ''ab''), (20, ''abc'')] 520) = [(520, ''abc'')]
   \<and> debouncedValue (useDebounce 500 0 ''a'' [(10, ''ab''), (20, ''abc'')] 520) = ''abc''
   \<and> propagated (useDebounce 500 0 ''a'' [(10, ''ab''), (600, ''abc'')] 2000)
        = [(510, ''ab''), (1100, ''abc'')]"
  using debounce_propagation [of 0 "''a''" "[(10, ''ab''), (20, ''abc'')]" 15
      "''ab''" "mount 500 0 ''a''" 500 10]
    debounce_propagation [of 0 "''a''" "[(10, ''ab''), (20, ''abc'')]" 519
      "''ab''" "mount 500 0 ''a''" 500 10]
    debounce_propagation [of 0 "''a''" "[(10, ''ab''), (20, ''abc'')]" 520
      "''ab''" "mount 500 0 ''a''" 500 10]
    debounce_propagation [of 0 "''a''" "[(10, ''ab''), (600, ''abc'')]" 2000
      "''ab''" "mount 500 0 ''a''" 500 10]
  by (simp add: mount_def)

section \<open>Failed fetches and their notification\<close>

lemma handleError_Error: "handleError (Error m) toasts = toasts @ [[]]"
  by (simp add: handleError_def)

lemma fetchJobItem_not_ok:
  "fetchJobItem (Inr \<lparr>ok = False, json = Inr (Body d c)\<rparr>) =
     Inl (Error (case d of None \<Rightarrow> [] | Some text \<Rightarrow> text))"
  by (simp add: fetchJobItem_def)

text \<open>
  Claim C6. A response 404 whose body has the description \<open>Job not found\<close> makes
  both fetch functions throw an error with that message; the query hands it to
  \<open>handleError\<close> once, and the notification that appears has the empty message.
  A body without description gives an error with the empty message, shown as the
  empty message too. The handler passes a thrown string on as it is and has the
  generic message for a value that is neither an error nor a string.
\<close>

theorem http_error_message_lost:
  "fetchJobItem (Inr \<lparr>ok = False, json = Inr (Body (Some ''Job not found'') ())\<rparr>)
     = Inl (Error ''Job not found'')
   \<and> fetchJobItems (Inr \<lparr>ok = False, json = Inr (Body (Some ''Job not found'') ())\<rparr>)
     = Inl (Error ''Job not found'')
   \<and> handleError (Error ''Job not found'') [] = [[]]
   \<and> snd (settle (Map.empty, []) (''job-item'', Some (Num 7)) True
        (fetchJobItem (Inr \<lparr>ok = False, json = Inr (Body (Some ''Job not found'') ())\<rparr>)))
     = [[]]
   \<and> fetchJobItem (Inr \<lparr>ok = False, json = Inr (Body None ())\<rparr>) = Inl (Error [])
   \<and> handleError (Error []) [] = [[]]
   \<and> handleError (Thrown_string ''offline'') [] = [''offline'']
   \<and> handleError Thrown_other [] = [''An error occurred'']"
  by (simp add: fetchJobItem_def fetchJobItems_def settle_def useQuery_def handleError_def)

section \<open>The disabled search query\<close>

lemma search_step_empty_key:
  assumes "fst client (''job-items'', []) = None"
  shows "fst (search_step client e) (''job-items'', []) = None"
proof (cases e)
  case (Search searchText fetched)
  show ?thesis
  proof (cases "searchText = []")
    case True
    then show ?thesis
      using assms Search by (simp add: settle_def useQuery_def Boolean_string_def)
  next
    case False
    then show ?thesis
      using assms Search by (simp add: settle_def split: sum.splits)
  qed
next
  case (Expire searchText)
  then show ?thesis
    using assms by (cases "searchText = []") (simp_all split: option.splits)
qed

lemma foldl_search_step_empty_key:
  "fst client (''job-items'', []) = None \<Longrightarrow>
   fst (foldl search_step client events) (''job-items'', []) = None"
  by (induction events arbitrary: client) (simp_all add: search_step_empty_key)

text \<open>
  Claim C7. Whatever searches have been made before and however they settled, the
  search hook called with the empty search text does not invoke the fetch, returns
  undefined job items, and is not loading.
\<close>

theorem empty_search_disabled:
  "\<not> search_fetches (fst (search_client events)) []
   \<and> selected (useSearchQuery (fst (search_client events)) []) = None
   \<and> \<not> isLoading (useSearchQuery (fst (search_client events)) [])"
proof -
  have "fst (search_client events) (''job-items'', []) = None"
    unfolding search_client_def by (rule foldl_search_step_empty_key) simp
  then show ?thesis
    by (simp add: search_fetches_def useSearchQuery_def useQuery_def Boolean_string_def)
qed

section \<open>The active id\<close>

lemma is_digit_iff: "is_digit c \<longleftrightarrow> c \<in> set ''0123456789''"
  by (auto simp: is_digit_def digit_in_def split: if_splits option.splits)

lemma digit_in_digit_char: "d < 10 \<Longrightarrow> digit_in 10 (digit_char d) = Some d"
proof -
  assume "d < 10"
  then have "d \<in> {0, 1, 2, 3, 4, 5, 6, 7, 8, 9}" by auto
  then show ?thesis
    by (auto simp: digit_in_def digit_char_def)
qed

lemma is_digit_digit_char: "d < 10 \<Longrightarrow> is_digit (digit_char d)"
  by (simp add: is_digit_def digit_in_digit_char)

lemma digits_value_snoc:
  "digits_value base (ds @ [c]) =
     digits_value base ds * base + (case digit_in base c of Some d \<Rightarrow> d | None \<Rightarrow> 0)"
  by (simp add: digits_value_def)

lemma dec_nonempty: "dec n \<noteq> []"
  by (subst dec.simps) simp

lemma dec_all_digits: "list_all is_digit (dec n)"
proof (induction n rule: dec.induct)
  case (1 n)
  show ?case
  proof (cases "n < 10")
    case True
    then show ?thesis by (subst dec.simps) (simp add: is_digit_digit_char)
  next
    case False
    with 1 show ?thesis by (subst dec.simps) (simp add: is_digit_digit_char)
  qed
qed

lemma digits_value_dec: "digits_value 10 (dec n) = n"
proof (induction n rule: dec.induct)
  case (1 n)
  show ?case
  proof (cases "n < 10")
    case True
    then show ?thesis
      by (subst dec.simps) (simp add: digits_value_def digit_in_digit_char)
  next
    case False
    with 1 show ?thesis
      by (subst dec.simps) (simp add: digits_value_snoc digit_in_digit_char)
  qed
qed

lemma takeWhile_all: "list_all P xs \<Longrightarrow> takeWhile P xs = xs"
  by (induction xs) simp_all

lemma dropWhile_all: "list_all P xs \<Longrightarrow> dropWhile P xs = []"
  by (induction xs) simp_all

lemma dropWhile_hd: "xs \<noteq> [] \<Longrightarrow> \<not> P (hd xs) \<Longrightarrow> dropWhile P xs = xs"
  by (cases xs) simp_all

lemma digit_not_space: "is_digit c \<Longrightarrow> \<not> is_space c"
  by (auto simp: is_digit_iff is_space_def)

lemma trim_digits:
  assumes "ds \<noteq> []" "list_all is_digit ds"
  shows "trim ds = ds"
proof -
  have "is_digit (hd ds)" "is_digit (last ds)"
    using assms by (simp_all add: list_all_iff)
  then have "\<not> is_space (hd ds)" "\<not> is_space (hd (rev ds))"
    using assms(1) by (simp_all add: digit_not_space hd_rev)
  then show ?thesis
    using assms(1) by (simp add: trim_def dropWhile_hd)
qed

lemma radix_literal_digits:
  assumes "list_all is_digit ds"
  shows "radix_literal ds = None"
proof (cases ds)
  case Nil
  then show ?thesis by (simp add: radix_literal_def)
next
  case (Cons c0 r)
  show ?thesis
  proof (cases r)
    case Nil
    with Cons show ?thesis by (simp add: radix_literal_def)
  next
    case (Cons c1 r')
    with assms \<open>ds = c0 # r\<close> have "is_digit c1" by simp
    then have "c1 \<notin> set ''xXoObB''" by (auto simp: is_digit_iff)
    with Cons \<open>ds = c0 # r\<close> show ?thesis by (simp add: radix_literal_def)
  qed
qed

lemma unsigned_decimal_digits:
  assumes "ds \<noteq> []" "list_all is_digit ds"
  shows "unsigned_decimal ds = Num (of_nat (digits_value 10 ds))"
proof -
  have "is_digit (hd ds)" using assms by (cases ds) simp_all
  then have "hd ds \<noteq> CHR ''I''" by (auto simp: is_digit_iff)
  then have "ds \<noteq> ''Infinity''" by auto
  then show ?thesis
    using assms
    by (simp add: unsigned_decimal_def takeWhile_all dropWhile_all exponent_part_def
        decimal_value_def digits_value_def)
qed

lemma to_number_digits:
  assumes "ds \<noteq> []" "list_all is_digit ds"
  shows "to_number ds = Num (of_nat (digits_value 10 ds))"
proof -
  have "is_digit (hd ds)" using assms by (cases ds) simp_all
  then have "hd ds \<noteq> CHR ''+''" "hd ds \<noteq> CHR ''-''" by (auto simp: is_digit_iff)
  then show ?thesis
    using assms
    by (simp add: to_number_def trim_digits radix_literal_digits unsigned_decimal_digits)
qed

lemma to_number_dec: "to_number (dec n) = Num (of_nat n)"
  by (simp add: to_number_digits dec_nonempty dec_all_digits digits_value_dec)

text \<open>
  Claim C8, as stated, fails: without a fragment the hook yields the number 0, and
  for the fragment \<open>#abc\<close> it yields not-a-number; neither is null.
\<close>

theorem active_id_counterexample:
  "useActiveId [] = Some (Num 0) \<and> useActiveId ''#abc'' = Some NaN"
  by code_simp

text \<open>
  Claim C8, amended. A fragment \<open>#\<close> followed by the decimal digits of an integer up
  to \<open>2^53\<close> yields that integer, and the detail query for it is enabled, and fetches
  when the cache is empty, exactly when the integer is not 0. Without a fragment the
  hook yields 0, for a fragment that is not numeric it yields not-a-number; in both
  cases the detail query is not issued.
\<close>

theorem active_id_of_fragment:
  "(n \<le> 2 ^ 53 \<longrightarrow>
      useActiveId (CHR ''#'' # dec n) = Some (Num (of_nat n))
      \<and> (Boolean_number (useActiveId (CHR ''#'' # dec n)) \<longleftrightarrow> n \<noteq> 0)
      \<and> (job_item_fetches
            (Map.empty :: string \<times> number option \<rightharpoonup> 'e JobItemApiResponse \<times> bool)
            (useActiveId (CHR ''#'' # dec n)) \<longleftrightarrow> n \<noteq> 0))
   \<and> useActiveId [] = Some (Num 0)
   \<and> \<not> job_item_fetches
         (cache :: string \<times> number option \<rightharpoonup> 'e JobItemApiResponse \<times> bool) (useActiveId [])
   \<and> (to_number (drop 1 hash) = NaN \<longrightarrow>
        useActiveId hash = Some NaN \<and> \<not> job_item_fetches cache (useActiveId hash))"
proof -
  have "useActiveId (CHR ''#'' # dec n) = Some (Num (of_nat n))"
    by (simp add: useActiveId_def handleHashChange_def to_number_dec)
  moreover have "useActiveId [] = Some (Num 0)"
    by (simp add: useActiveId_def handleHashChange_def to_number_def trim_def)
  moreover have "useActiveId hash = Some NaN" if "to_number (drop 1 hash) = NaN"
    using that by (simp add: useActiveId_def handleHashChange_def)
  ultimately show ?thesis
    by (simp add: job_item_fetches_def useQuery_def Boolean_number_def split: option.splits)
qed

theorem active_id_of_fragment_witness:
  "(42::nat) \<le> 2 ^ 53 \<and> to_number (drop 1 ''#abc'') = NaN
   \<and> useActiveId ''#42'' = Some (Num 42)
   \<and> job_item_fetches (Map.empty :: string \<times> number option \<rightharpoonup> unit JobItemApiResponse \<times> bool)
        (useActiveId ''#42'')
   \<and> useActiveId ''#abc'' = Some NaN
   \<and> \<not> job_item_fetches (Map.empty :: string \<times> number option \<rightharpoonup> unit JobItemApiResponse \<times> bool)
        (useActiveId ''#abc'')"
proof -
  have d: "dec 42 = ''42''" by code_simp
  have n: "to_number (drop 1 ''#abc'') = NaN" by code_simp
  from active_id_of_fragment [of 42
      "Map.empty :: string \<times> number option \<rightharpoonup> unit JobItemApiResponse \<times> bool" "''#abc''"] n
  show ?thesis by (simp add: d job_item_fetches_def useQuery_def Boolean_number_def)
qed

section \<open>JSON text of an array of ids\<close>

lemma dec_zero: "dec 0 = ''0''"
  by (subst dec.simps) (simp add: digit_char_def)

lemma hd_dec_nonzero: "n \<noteq> 0 \<Longrightarrow> hd (dec n) \<noteq> CHR ''0''"
proof (induction n rule: dec.induct)
  case (1 n)
  show ?case
  proof (cases "n < 10")
    case True
    with 1 have "n \<in> {1, 2, 3, 4, 5, 6, 7, 8, 9}" by auto
    then show ?thesis by (subst dec.simps) (auto simp: digit_char_def)
  next
    case False
    then have "n div 10 \<noteq> 0" by simp
    with 1 False have "hd (dec (n div 10)) \<noteq> CHR ''0''" by simp
    with False show ?thesis by (subst dec.simps) (simp add: dec_nonempty)
  qed
qed

lemma takeWhile_prefix:
  "list_all P xs \<Longrightarrow> ys = [] \<or> \<not> P (hd ys) \<Longrightarrow> takeWhile P (xs @ ys) = xs"
  by (induction xs) (auto simp: takeWhile_eq_Nil_iff intro: dropWhile_hd)

lemma decimal_value_int: "decimal_value ds [] 0 = of_nat (digits_value 10 ds)"
  by (simp add: decimal_value_def digits_value_def)

lemma ends_number_not_digit:
  "ends_number rest \<Longrightarrow> rest = [] \<or> \<not> is_digit (hd rest)"
  by (auto simp: ends_number_def is_digit_iff)

lemma int_part_dec:
  assumes "ends_number rest"
  shows "int_part (dec n @ rest) = Some (dec n, rest)"
proof (cases "n = 0")
  case True
  then show ?thesis by (simp add: int_part_def dec_zero)
next
  case False
  have "takeWhile is_digit (dec n @ rest) = dec n"
    using ends_number_not_digit [OF assms] by (simp add: takeWhile_prefix dec_all_digits)
  moreover have "dropWhile is_digit (dec n @ rest) = rest"
  proof -
    have "dropWhile is_digit rest = rest"
      using ends_number_not_digit [OF assms] by (cases rest) auto
    then show ?thesis
      using dec_all_digits [of n] by (simp add: dropWhile_append list_all_iff)
  qed
  ultimately show ?thesis
    using hd_dec_nonzero [OF False] by (simp add: int_part_def dec_nonempty)
qed

lemma fraction_part_none: "ends_number rest \<Longrightarrow> fraction_part rest = Some ([], rest)"
  by (auto simp: fraction_part_def ends_number_def)

lemma json_exponent_none: "ends_number rest \<Longrightarrow> json_exponent rest = Some (0, rest)"
  by (auto simp: json_exponent_def ends_number_def)

lemma hd_dec_digit: "is_digit (hd (dec n))"
  using dec_all_digits [of n] dec_nonempty [of n] by (cases "dec n") simp_all

lemma json_number_dec:
  assumes "ends_number rest"
  shows "json_number (dec n @ rest) = Some (of_nat n, rest)"
proof -
  have "hd (dec n) \<noteq> CHR ''-''"
    using hd_dec_digit [of n] by (auto simp: is_digit_iff)
  then show ?thesis
    using assms
    by (simp add: json_number_def dec_nonempty int_part_dec fraction_part_none
        json_exponent_none decimal_value_int digits_value_dec)
qed

lemma json_number_show_int:
  assumes "ends_number rest"
  shows "json_number (show_int i @ rest) = Some (of_int i, rest)"
proof (cases "i < 0")
  case True
  then have "rat_of_int i = - of_nat (nat (- i))" by simp
  with True show ?thesis
    using assms
    by (simp add: show_int_def json_number_def int_part_dec fraction_part_none
        json_exponent_none decimal_value_int digits_value_dec del: of_nat_nat)
next
  case False
  then have "rat_of_int i = of_nat (nat i)" by simp
  with False show ?thesis
    using json_number_dec [OF assms, of "nat i"] by (simp add: show_int_def del: of_nat_nat)
qed

lemma hd_show_int: "hd (show_int i) = CHR ''-'' \<or> is_digit (hd (show_int i))"
  by (simp add: show_int_def hd_dec_digit)

lemma show_int_nonempty: "show_int i \<noteq> []"
  by (simp add: show_int_def dec_nonempty)

lemma number_start_skip_ws:
  assumes "s \<noteq> []" "hd s = CHR ''-'' \<or> is_digit (hd s)"
  shows "skip_ws s = s"
proof -
  have "\<not> is_json_space (hd s)"
    using assms(2) by (auto simp: is_json_space_def is_digit_iff)
  with assms(1) show ?thesis by (simp add: skip_ws_def dropWhile_hd)
qed

lemma parse_value_number_start:
  assumes "s \<noteq> []" "hd s = CHR ''-'' \<or> is_digit (hd s)"
  shows "parse_value (Suc n) s = map_option (\<lambda>(r, rest). (JNumber r, rest)) (json_number s)"
proof -
  obtain c r where s: "s = c # r" using assms(1) by (cases s) auto
  with assms(2) have c: "c \<in> set ''-0123456789''" by (auto simp: is_digit_iff)
  then have "c \<noteq> CHR ''[''" "c \<noteq> CHR ''{''" "c \<noteq> CHR 0x22"
    "c \<noteq> CHR ''t''" "c \<noteq> CHR ''f''" "c \<noteq> CHR ''n''"
    by auto
  then show ?thesis
    using number_start_skip_ws [OF assms] s by (simp add: Let_def take_Cons')
qed

lemma parse_value_show_int:
  assumes "ends_number rest"
  shows "parse_value (Suc n) (show_int i @ rest) = Some (JNumber (of_int i), rest)"
proof -
  have "show_int i @ rest \<noteq> []" by (simp add: show_int_nonempty)
  moreover have "hd (show_int i @ rest) = CHR ''-'' \<or> is_digit (hd (show_int i @ rest))"
    using hd_show_int [of i] by (simp add: show_int_nonempty)
  ultimately have "parse_value (Suc n) (show_int i @ rest) =
      map_option (\<lambda>(r, rest). (JNumber r, rest)) (json_number (show_int i @ rest))"
    by (rule parse_value_number_start)
  then show ?thesis
    by (simp add: json_number_show_int [OF assms])
qed

lemma parse_elements_ids:
  assumes "ids \<noteq> []" "length ids < n"
  shows "parse_elements n acc (join_commas (map show_int ids) @ CHR '']'' # rest) =
           Some (JArray (acc @ map (\<lambda>i. JNumber (of_int i)) ids), rest)"
  using assms
proof (induction ids arbitrary: n acc)
  case Nil
  then show ?case by simp
next
  case (Cons i ids)
  from Cons.prems obtain m where n: "n = Suc (Suc m)" and m: "length ids \<le> m"
    by (cases n; cases "n - 1") auto
  show ?case
  proof (cases ids)
    case Nil
    have "ends_number (CHR '']'' # rest)" by (simp add: ends_number_def)
    from parse_value_show_int [OF this, of m i] show ?thesis
      using Nil n by (simp add: skip_ws_def is_json_space_def)
  next
    case (Cons j ids')
    let ?tail = "join_commas (map show_int ids) @ CHR '']'' # rest"
    have "ends_number (CHR '','' # ?tail)" by (simp add: ends_number_def)
    from parse_value_show_int [OF this, of m i]
    have "parse_value (Suc m) (show_int i @ CHR '','' # ?tail) = Some (JNumber (of_int i), CHR '','' # ?tail)" .
    moreover have "parse_elements (Suc m) (acc @ [JNumber (of_int i)]) ?tail =
        Some (JArray ((acc @ [JNumber (of_int i)]) @ map (\<lambda>i. JNumber (of_int i)) ids), rest)"
      using Cons.IH [of "Suc m" "acc @ [JNumber (of_int i)]"] Cons m by simp
    ultimately show ?thesis
      using Cons n by (simp add: skip_ws_def is_json_space_def)
  qed
qed

lemma length_join_commas:
  "length ids \<le> length (join_commas (map show_int ids))"
proof (induction ids rule: induct_list012)
  case 1
  show ?case by simp
next
  case (2 i)
  then show ?case using show_int_nonempty [of i] by (cases "show_int i") simp_all
next
  case (3 i j ids)
  then show ?case by simp
qed

lemma JSON_roundtrip: "JSON_parse (JSON_stringify ids) = Inr (json_of_ids ids)"
proof (cases "ids = []")
  case True
  then show ?thesis
    by (simp add: JSON_parse_def JSON_stringify_def json_of_ids_def skip_ws_def
        is_json_space_def Let_def eval_nat_numeral)
next
  case False
  let ?body = "join_commas (map show_int ids) @ '']''"
  let ?n = "2 * length (JSON_stringify ids)"
  have start: "?body \<noteq> []" "hd ?body = CHR ''-'' \<or> is_digit (hd ?body)"
  proof -
    obtain i r where ids: "ids = i # r" using False by (cases ids) auto
    have "hd (join_commas (map show_int ids)) = hd (show_int i)"
      "join_commas (map show_int ids) \<noteq> []"
      unfolding ids using show_int_nonempty [of i] by (cases r; simp)+
    then show "?body \<noteq> []" "hd ?body = CHR ''-'' \<or> is_digit (hd ?body)"
      using hd_show_int [of i] by simp_all
  qed
  have ws: "skip_ws ?body = ?body" by (rule number_start_skip_ws [OF start])
  have notclose: "hd ?body \<noteq> CHR '']''"
    using start(2) by (auto simp: is_digit_iff)
  have "length ids < ?n"
    using length_join_commas [of ids] by (simp add: JSON_stringify_def)
  from parse_elements_ids [OF False this, of "[]" "[]"]
  have "parse_elements ?n [] ?body = Some (json_of_ids ids, [])"
    by (simp add: json_of_ids_def)
  then have "parse_value (Suc ?n) (JSON_stringify ids) = Some (json_of_ids ids, [])"
    using ws notclose start(1)
    by (simp add: JSON_stringify_def skip_ws_def [of "CHR ''['' # _"] is_json_space_def Let_def)
  then show ?thesis
    by (simp add: JSON_parse_def skip_ws_def)
qed


section \<open>The fuel of the parser\<close>

text \<open>
  Parsing consumes text, so the nesting of calls is bounded by the length of the text:
  whatever any amount of fuel parses, the fuel \<open>JSON_parse\<close> starts with parses as well.
\<close>

lemma length_skip_ws: "length (skip_ws s) \<le> length s"
  by (simp add: skip_ws_def length_dropWhile_le)

lemma takeWhile_dropWhile_length:
  "takeWhile P s \<noteq> [] \<Longrightarrow> length (dropWhile P s) < length s"
proof -
  assume "takeWhile P s \<noteq> []"
  then have "0 < length (takeWhile P s)" by simp
  moreover have "length (takeWhile P s) + length (dropWhile P s) = length s"
    by (metis length_append takeWhile_dropWhile_id)
  ultimately show ?thesis by linarith
qed

lemma scan_string_shorter: "scan_string acc s = Some (str, r) \<Longrightarrow> length r < length s"
proof (induction "length s" arbitrary: acc s rule: less_induct)
  case less
  show ?case
  proof (cases s)
    case Nil
    with less.prems show ?thesis by simp
  next
    case (Cons c r0)
    note step = less.prems [unfolded Cons scan_string.simps]
    show ?thesis
    proof (cases "c = CHR 0x22")
      case True
      with step Cons show ?thesis by simp
    next
      case quote: False
      show ?thesis
      proof (cases "c = CHR 0x5C")
        case True
        with step quote obtain e r' where r0: "r0 = e # r'" by (cases r0) auto
        show ?thesis
        proof (cases "is_escape e")
          case True
          with step quote \<open>c = CHR 0x5C\<close> r0
          have "scan_string (e # c # acc) r' = Some (str, r)" by simp
          from less.hyps [OF _ this] Cons r0 show ?thesis by simp
        next
          case False
          with step quote \<open>c = CHR 0x5C\<close> r0
          have "scan_string (rev (take 4 r') @ e # c # acc) (drop 4 r') = Some (str, r)"
            by (simp split: if_splits)
          moreover have "length (drop 4 r') < length s" using Cons r0 by simp
          ultimately have "length r < length (drop 4 r')" using less.hyps by blast
          then show ?thesis using Cons r0 by simp
        qed
      next
        case False
        with step quote have "scan_string (c # acc) r0 = Some (str, r)"
          by (simp split: if_splits)
        from less.hyps [OF _ this] Cons show ?thesis by simp
      qed
    qed
  qed
qed

lemma int_part_shorter: "int_part s = Some (ip, r) \<Longrightarrow> length r < length s"
  by (auto simp: int_part_def takeWhile_dropWhile_length split: if_splits)

lemma fraction_part_shorter: "fraction_part s = Some (fp, r) \<Longrightarrow> length r \<le> length s"
proof -
  have "length (dropWhile is_digit (tl s)) \<le> length s"
    using length_dropWhile_le [of is_digit "tl s"] by simp
  then show "fraction_part s = Some (fp, r) \<Longrightarrow> length r \<le> length s"
    by (auto simp: fraction_part_def split: if_splits)
qed

lemma json_exponent_shorter: "json_exponent s = Some (e, r) \<Longrightarrow> length r \<le> length s"
proof -
  have "length (dropWhile is_digit (tl s)) \<le> length s"
    "length (dropWhile is_digit (tl (tl s))) \<le> length s"
    using length_dropWhile_le [of is_digit "tl s"] length_dropWhile_le [of is_digit "tl (tl s)"]
    by simp_all
  then show "json_exponent s = Some (e, r) \<Longrightarrow> length r \<le> length s"
    by (auto simp: json_exponent_def Let_def split: if_splits)
qed

lemma json_number_shorter:
  assumes "json_number s = Some (x, r)"
  shows "length r < length s"
proof -
  let ?s1 = "if s \<noteq> [] \<and> hd s = CHR ''-'' then tl s else s"
  from assms obtain ip r1 fp r2 e where
    "int_part ?s1 = Some (ip, r1)" "fraction_part r1 = Some (fp, r2)"
    "json_exponent r2 = Some (e, r)"
    by (auto simp: json_number_def Let_def split: option.splits)
  then have "length r1 < length ?s1" "length r2 \<le> length r1" "length r \<le> length r2"
    by (auto dest: int_part_shorter fraction_part_shorter json_exponent_shorter)
  moreover have "length ?s1 \<le> length s" by simp
  ultimately show ?thesis by linarith
qed

lemma length_tl_skip_ws: "skip_ws s \<noteq> [] \<Longrightarrow> length (tl (skip_ws s)) < length s"
  using length_skip_ws [of s] by (cases "skip_ws s") simp_all

lemma parse_shorter:
  "(parse_value n s = Some (v, r) \<longrightarrow> length r < length s)
   \<and> (parse_elements n acc s = Some (v, r) \<longrightarrow> length r < length s)
   \<and> (parse_members n macc s = Some (v, r) \<longrightarrow> length r < length s)"
proof (induction n arbitrary: s v r acc macc)
  case 0
  show ?case by simp
next
  case (Suc n)
  have ihv: "length r' < length s'" if "parse_value n s' = Some (v', r')" for s' v' r'
    using Suc that by blast
  have ihe: "length r' < length s'" if "parse_elements n acc' s' = Some (v', r')"
    for s' v' r' acc'
    using Suc that by blast
  have ihm: "length r' < length s'" if "parse_members n macc' s' = Some (v', r')"
    for s' v' r' macc'
    using Suc that by blast
  let ?t = "skip_ws s"
  have t: "length ?t \<le> length s" by (rule length_skip_ws)
  have val: "length r < length s" if p: "parse_value (Suc n) s = Some (v, r)"
  proof -
    from p have ne: "?t \<noteq> []" by (auto simp: Let_def split: if_splits)
    then have tl: "length (tl ?t) < length s" by (rule length_tl_skip_ws)
    consider (arr0) "hd ?t = CHR ''[''" "r = tl (skip_ws (tl ?t))" "skip_ws (tl ?t) \<noteq> []"
      | (arr) "parse_elements n [] (tl ?t) = Some (v, r)"
      | (obj0) "hd ?t = CHR ''{''" "r = tl (skip_ws (tl ?t))" "skip_ws (tl ?t) \<noteq> []"
      | (obj) "parse_members n [] (tl ?t) = Some (v, r)"
      | (str) str where "scan_string [] (tl ?t) = Some (str, r)"
      | (lit) "r = drop 4 ?t \<or> r = drop 5 ?t"
      | (num) x where "json_number ?t = Some (x, r)"
      using p by (auto simp: Let_def split: if_splits)
    then show ?thesis
    proof cases
      case arr0
      from length_tl_skip_ws [OF arr0(3)] arr0(2) tl show ?thesis by simp
    next
      case arr
      from ihe [OF this] tl show ?thesis by simp
    next
      case obj0
      from length_tl_skip_ws [OF obj0(3)] obj0(2) tl show ?thesis by simp
    next
      case obj
      from ihm [OF this] tl show ?thesis by simp
    next
      case str
      from scan_string_shorter [OF this] tl show ?thesis by simp
    next
      case lit
      moreover have "length (drop 4 ?t) \<le> length (tl ?t)" "length (drop 5 ?t) \<le> length (tl ?t)"
        by simp_all
      ultimately show ?thesis using tl by (elim disjE) (hypsubst, linarith)+
    next
      case num
      from json_number_shorter [OF this] t show ?thesis by simp
    qed
  qed
  have elems: "length r < length s" if p: "parse_elements (Suc n) acc s = Some (v, r)"
  proof -
    from p obtain v1 r1 where v1: "parse_value n s = Some (v1, r1)"
      by (auto split: option.splits)
    from ihv [OF this] have r1: "length r1 < length s" .
    from p v1 have ne: "skip_ws r1 \<noteq> []" by (auto simp: Let_def split: if_splits)
    from p v1 ne consider
      (again) "parse_elements n (acc @ [v1]) (tl (skip_ws r1)) = Some (v, r)"
      | (closing) "r = tl (skip_ws r1)"
      by (auto simp: Let_def split: if_splits)
    then show ?thesis
    proof cases
      case again
      from ihe [OF this] length_tl_skip_ws [OF ne] r1
      show ?thesis by simp
    next
      case closing
      with length_tl_skip_ws [OF ne] r1 show ?thesis by simp
    qed
  qed
  have membs: "length r < length s" if p: "parse_members (Suc n) macc s = Some (v, r)"
  proof -
    from p have ne: "?t \<noteq> []" by (auto simp: Let_def split: if_splits)
    from p ne obtain k r0 where k: "scan_string [] (tl ?t) = Some (k, r0)"
      by (auto simp: Let_def split: if_splits option.splits)
    from scan_string_shorter [OF k] length_tl_skip_ws [OF ne]
    have r0: "length r0 < length s" by simp
    from p ne k have ne1: "skip_ws r0 \<noteq> []" by (auto simp: Let_def split: if_splits)
    from p ne k ne1 obtain v1 r1 where v1: "parse_value n (tl (skip_ws r0)) = Some (v1, r1)"
      by (auto simp: Let_def split: if_splits option.splits)
    from ihv [OF this] length_tl_skip_ws [OF ne1] r0
    have r1: "length r1 < length s" by simp
    from p ne k ne1 v1 have ne2: "skip_ws r1 \<noteq> []" by (auto simp: Let_def split: if_splits)
    from p ne k ne1 v1 ne2 consider
      (again) "parse_members n (macc @ [(k, v1)]) (tl (skip_ws r1)) = Some (v, r)"
      | (closing) "r = tl (skip_ws r1)"
      by (auto simp: Let_def split: if_splits)
    then show ?thesis
    proof cases
      case again
      from ihm [OF this] length_tl_skip_ws [OF ne2] r1
      show ?thesis by simp
    next
      case closing
      with length_tl_skip_ws [OF ne2] r1 show ?thesis by simp
    qed
  qed
  from val elems membs show ?case by blast
qed

lemma parse_value_shorter: "parse_value n s = Some (v, r) \<Longrightarrow> length r < length s"
  using parse_shorter [of n s v r] by blast

lemma parse_fuel:
  "(parse_value n s = Some x \<longrightarrow> (\<forall>k. 2 * length s < k \<longrightarrow> parse_value k s = Some x))
   \<and> (parse_elements n acc s = Some x \<longrightarrow>
        (\<forall>k. 2 * length s + 1 < k \<longrightarrow> parse_elements k acc s = Some x))
   \<and> (parse_members n macc s = Some x \<longrightarrow>
        (\<forall>k. 2 * length s + 1 < k \<longrightarrow> parse_members k macc s = Some x))"
proof (induction n arbitrary: s x acc macc)
  case 0
  show ?case by simp
next
  case (Suc n)
  have ihv: "parse_value k s' = Some x'"
    if "parse_value n s' = Some x'" "2 * length s' < k" for s' x' k
    using Suc that by blast
  have ihe: "parse_elements k acc' s' = Some x'"
    if "parse_elements n acc' s' = Some x'" "2 * length s' + 1 < k" for s' x' k acc'
    using Suc that by blast
  have ihm: "parse_members k macc' s' = Some x'"
    if "parse_members n macc' s' = Some x'" "2 * length s' + 1 < k" for s' x' k macc'
    using Suc that by blast
  let ?t = "skip_ws s"
  have val: "parse_value k s = Some x"
    if p: "parse_value (Suc n) s = Some x" and k: "2 * length s < k" for k
  proof -
    from k obtain k' where k': "k = Suc k'" "2 * length s \<le> k'" by (cases k) auto
    from p have ne: "?t \<noteq> []" by (auto simp: Let_def split: if_splits)
    from length_tl_skip_ws [OF ne] k'(2) have fuel: "2 * length (tl ?t) + 1 < k'" by linarith
    have "parse_elements k' [] (tl ?t) = Some x" if "parse_elements n [] (tl ?t) = Some x"
      using ihe [OF that fuel] .
    moreover have "parse_members k' [] (tl ?t) = Some x" if "parse_members n [] (tl ?t) = Some x"
      using ihm [OF that fuel] .
    ultimately show ?thesis
      using p unfolding k'(1) by (auto simp: Let_def split: if_splits)
  qed
  have elems: "parse_elements k acc s = Some x"
    if p: "parse_elements (Suc n) acc s = Some x" and k: "2 * length s + 1 < k" for k
  proof -
    from k obtain k' where k': "k = Suc k'" "2 * length s < k'" by (cases k) auto
    from p obtain v1 r1 where v1: "parse_value n s = Some (v1, r1)"
      by (auto split: option.splits)
    from ihv [OF v1 k'(2)] have v1': "parse_value k' s = Some (v1, r1)" .
    from p v1 have ne: "skip_ws r1 \<noteq> []" by (auto simp: Let_def split: if_splits)
    from length_tl_skip_ws [OF ne] parse_value_shorter [OF v1] k'(2)
    have fuel: "2 * length (tl (skip_ws r1)) + 1 < k'" by linarith
    have "parse_elements k' (acc @ [v1]) (tl (skip_ws r1)) = Some x"
      if "parse_elements n (acc @ [v1]) (tl (skip_ws r1)) = Some x"
      using ihe [OF that fuel] .
    then show ?thesis
      using p v1 v1' unfolding k'(1) by (auto simp: Let_def split: if_splits)
  qed
  have membs: "parse_members k macc s = Some x"
    if p: "parse_members (Suc n) macc s = Some x" and k: "2 * length s + 1 < k" for k
  proof -
    from k obtain k' where k': "k = Suc k'" "2 * length s < k'" by (cases k) auto
    from p have ne: "?t \<noteq> []" by (auto simp: Let_def split: if_splits)
    from p ne obtain key r0 where key: "scan_string [] (tl ?t) = Some (key, r0)"
      by (auto simp: Let_def split: if_splits option.splits)
    from scan_string_shorter [OF key] length_tl_skip_ws [OF ne]
    have r0: "length r0 < length s" by simp
    from p ne key have ne1: "skip_ws r0 \<noteq> []" by (auto simp: Let_def split: if_splits)
    from p ne key ne1 obtain v1 r1 where v1: "parse_value n (tl (skip_ws r0)) = Some (v1, r1)"
      by (auto simp: Let_def split: if_splits option.splits)
    from length_tl_skip_ws [OF ne1] r0 k'(2) have "2 * length (tl (skip_ws r0)) < k'" by linarith
    from ihv [OF v1 this] have v1': "parse_value k' (tl (skip_ws r0)) = Some (v1, r1)" .
    from p ne key ne1 v1 have ne2: "skip_ws r1 \<noteq> []" by (auto simp: Let_def split: if_splits)
    from length_tl_skip_ws [OF ne2] parse_value_shorter [OF v1] length_tl_skip_ws [OF ne1] r0 k'(2)
    have fuel: "2 * length (tl (skip_ws r1)) + 1 < k'" by linarith
    have "parse_members k' (macc @ [(key, v1)]) (tl (skip_ws r1)) = Some x"
      if "parse_members n (macc @ [(key, v1)]) (tl (skip_ws r1)) = Some x"
      using ihm [OF that fuel] .
    then show ?thesis
      using p key v1 v1' unfolding k'(1) by (auto simp: Let_def split: if_splits)
  qed
  from val elems membs show ?case by blast
qed

lemma JSON_parse_any_fuel:
  assumes "parse_value n text = Some (v, r)" "skip_ws r = []"
  shows "JSON_parse text = Inr v"
proof -
  from parse_fuel [of n "text" "(v, r)"] assms(1)
  have "\<forall>k. 2 * length text < k \<longrightarrow> parse_value k text = Some (v, r)" by blast
  then have "parse_value (Suc (2 * length text)) text = Some (v, r)" by blast
  with assms(2) show ?thesis by (simp add: JSON_parse_def del: parse_value.simps)
qed

section \<open>The persisted store\<close>

lemma JSON_stringify_nonempty: "JSON_stringify ids \<noteq> []"
  by (simp add: JSON_stringify_def)

text \<open>
  Claim C5, as stated, fails: with the text \<open>[1,\<close> under the key, which is not valid
  JSON, the initial load raises a \<open>SyntaxError\<close>.
\<close>

theorem malformed_storage_counterexample:
  "useLocalStorage [''bookmarkedIds'' \<mapsto> ''[1,''] ''bookmarkedIds'' [] = Inl SyntaxError"
  by code_simp

text \<open>
  Claim C5, amended. When nothing, or the empty string, is stored under the key, the
  store starts with the initial value, the empty set for the bookmarks, and no
  exception is raised. A stored text that is not empty goes to \<open>JSON.parse\<close> as it is:
  the store starts with what it parses to, and a text that is not valid JSON raises
  the \<open>SyntaxError\<close> of \<open>JSON.parse\<close> out of the initial load.
\<close>

theorem useLocalStorage_initial_load:
  "(storage key = None \<or> storage key = Some [] \<longrightarrow>
      useLocalStorage storage key initialValue = Inr (json_of_ids initialValue))
   \<and> (storage key = Some text \<and> text \<noteq> [] \<longrightarrow>
      useLocalStorage storage key initialValue = JSON_parse text)
   \<and> (storage key = Some text \<and> text \<noteq> [] \<and> JSON_parse text = Inl SyntaxError \<longrightarrow>
      useLocalStorage storage key initialValue = Inl SyntaxError)"
  by (auto simp: useLocalStorage_def JSON_roundtrip)

theorem useLocalStorage_initial_load_witness:
  "useLocalStorage Map.empty ''bookmarkedIds'' [] = Inr (JArray [])
   \<and> useLocalStorage [''bookmarkedIds'' \<mapsto> []] ''bookmarkedIds'' [] = Inr (JArray [])
   \<and> useLocalStorage [''bookmarkedIds'' \<mapsto> ''[4, 2]''] ''bookmarkedIds'' []
        = Inr (JArray [JNumber 4, JNumber 2])
   \<and> JSON_parse ''{bad'' = Inl SyntaxError
   \<and> useLocalStorage [''bookmarkedIds'' \<mapsto> ''{bad''] ''bookmarkedIds'' [] = Inl SyntaxError"
proof -
  have p: "JSON_parse ''[4, 2]'' = Inr (JArray [JNumber 4, JNumber 2])"
    "JSON_parse ''{bad'' = Inl SyntaxError"
    by code_simp+
  from useLocalStorage_initial_load [of Map.empty "''bookmarkedIds''" "[]" "[]"]
    useLocalStorage_initial_load
      [of "[''bookmarkedIds'' \<mapsto> []]" "''bookmarkedIds''" "[]" "[]"]
    useLocalStorage_initial_load
      [of "[''bookmarkedIds'' \<mapsto> ''[4, 2]'']" "''bookmarkedIds''" "[]" "''[4, 2]''"]
    useLocalStorage_initial_load
      [of "[''bookmarkedIds'' \<mapsto> ''{bad'']" "''bookmarkedIds''" "[]" "''{bad''"]
  show ?thesis by (simp add: p json_of_ids_def)
qed

text \<open>
  Claim C10. For every array of bookmark ids: once the effect of the hook has written
  it under the key, the initial load of the hook reads the same array of the same
  ids back, whatever was stored before and whatever the initial value is.
\<close>

theorem bookmarks_roundtrip:
  "useLocalStorage (persist storage key ids) key initialValue = Inr (json_of_ids ids)"
  by (simp add: useLocalStorage_def persist_def JSON_stringify_nonempty JSON_roundtrip)

end
